theory Spec2Isabelle
  imports Main "HOL-Library.Word"
begin

section \<open>The per-RPC credential of the ssgrpc backend\<close>

text \<open>
  This theory embeds \<^verbatim>\<open>backend/ssgrpc/cred.go\<close>: the struct \<^verbatim>\<open>perRPCCreds\<close> and its
  two methods \<^verbatim>\<open>GetRequestMetadata\<close> and \<^verbatim>\<open>RequireTransportSecurity\<close>.

  Go's \<^verbatim>\<open>int64\<close> is a 64-bit word: subtraction wraps around, and \<^verbatim>\<open><\<close> on it is the
  signed comparison \<open><s\<close>. A \<^verbatim>\<open>[]byte\<close> is a list of 8-bit words, a \<^verbatim>\<open>string\<close> a
  \<^typ>\<open>string\<close>, and the \<^verbatim>\<open>map[string]string\<close> that is returned a map from
  \<^typ>\<open>string\<close> to \<^typ>\<open>string\<close>.
\<close>

subsection \<open>Data\<close>

type_synonym int64 = "64 word"
type_synonym byte = "8 word"

text \<open>
  \<^verbatim>\<open>time.Hour\<close> of Go's standard library: a \<^verbatim>\<open>time.Duration\<close> is an \<^verbatim>\<open>int64\<close> count of
  nanoseconds, and an hour is \<open>60 * 60 * 10\<^sup>9\<close> of them.
\<close>

definition time_Hour :: int64 where
  "time_Hour = 3600000000000"

text \<open>
  The struct \<^verbatim>\<open>perRPCCreds\<close>. Its fourth field, the pointer \<^verbatim>\<open>l\<close> to a
  \<^verbatim>\<open>sync.RWMutex\<close>, is the lock of the concurrent model below; a single call that runs
  alone takes and releases it and leaves it as it was, so the sequential model of a call
  carries the three data fields only.
\<close>

record perRPCCreds =
  tokenStr :: string
  tokenExpire :: int64
  sharedKey :: "byte list"

text \<open>
  The package \<^verbatim>\<open>backend/ssgrpc/token\<close> is not among the sources. Of the value \<^verbatim>\<open>u\<close> that
  \<^verbatim>\<open>token.GenUserToken\<close> returns, \<^verbatim>\<open>GetRequestMetadata\<close> reads the field \<^verbatim>\<open>EXP\<close> only;
  whatever other fields the struct has live in the extension of the record. The function
  itself is a parameter of the model, of the type \<open>GenUserToken\<close> below: given subject,
  time-to-live and key it returns either an error (\<open>Inl\<close>) or the user value and the token
  string (\<open>Inr\<close>). The type of its errors is the parameter \<open>'e\<close>.
\<close>

record User =
  EXP :: int64

type_synonym ('e, 'u) GenUserToken =
  "string \<Rightarrow> int64 \<Rightarrow> byte list \<Rightarrow> 'e + ('u User_scheme \<times> string)"

text \<open>
  What a call does besides returning: it calls \<^verbatim>\<open>token.GenUserToken\<close> (with the arguments
  recorded here), and it writes a line to \<^verbatim>\<open>log.Err\<close> or to \<^verbatim>\<open>log.Info\<close>.
\<close>

datatype 'e event =
    CallGenUserToken string int64 "byte list"
  | LogErr string 'e
  | LogInfo string

text \<open>
  The outcome of one call of \<^verbatim>\<open>GetRequestMetadata\<close>: the two values it returns (Go returns
  the map and the error side by side; \<^verbatim>\<open>nil\<close> is \<open>None\<close>), the credential as the call
  leaves it, and the events of the call in the order they happen.
\<close>

record 'e outcome =
  meta :: "string \<rightharpoonup> string"
  err :: "'e option"
  creds :: perRPCCreds
  events :: "'e event list"

subsection \<open>The methods\<close>

text \<open>
  \<^verbatim>\<open>GetRequestMetadata\<close>, line by line. \<open>now\<close> is what \<^verbatim>\<open>time.Now().Unix()\<close> returns
  during the call; \<open>ctx\<close> and \<open>uri\<close> are the arguments of the Go method.
\<close>

definition GetRequestMetadata ::
  "('e, 'u) GenUserToken \<Rightarrow> int64 \<Rightarrow> 'ctx \<Rightarrow> string list \<Rightarrow> perRPCCreds \<Rightarrow> 'e outcome"
where
  "GetRequestMetadata GenUserToken now ctx uri c =
    (let ex = tokenExpire c;
         tok = tokenStr c;
         key = sharedKey c;
         m = Map.empty
     in
       if ex - 300 <s now then
         (case GenUserToken ''ssgrpcClient'' time_Hour key of
            Inl e \<Rightarrow>
              \<lparr>meta = m, err = Some e, creds = c,
               events = [CallGenUserToken ''ssgrpcClient'' time_Hour key,
                         LogErr ''gen token error:'' e]\<rparr>
          | Inr (u, t) \<Rightarrow>
              (let ex = EXP u;
                   tok = t;
                   c = c\<lparr>tokenExpire := ex\<rparr>;
                   c = c\<lparr>tokenStr := tok\<rparr>
               in
                 \<lparr>meta = m(''authorization'' \<mapsto> ''Bearer '' @ tok), err = None, creds = c,
                  events = [CallGenUserToken ''ssgrpcClient'' time_Hour key,
                            LogInfo ''token refreshed'']\<rparr>))
       else
         \<lparr>meta = m(''authorization'' \<mapsto> ''Bearer '' @ tok), err = None, creds = c,
          events = []\<rparr>)"

definition RequireTransportSecurity :: "perRPCCreds \<Rightarrow> bool" where
  "RequireTransportSecurity c = True"

text \<open>Whether an event is a call of \<^verbatim>\<open>token.GenUserToken\<close>, that is, an issuance.\<close>

fun is_issuance :: "'e event \<Rightarrow> bool" where
  "is_issuance (CallGenUserToken s d k) = True"
| "is_issuance (LogErr s e) = False"
| "is_issuance (LogInfo s) = False"


subsection \<open>Concurrent calls\<close>

text \<open>
  Several goroutines call \<^verbatim>\<open>GetRequestMetadata\<close> on one credential. The calls are
  interleaved statement by statement; the places of a call are named after what the
  statement at that place does (the line of \<^verbatim>\<open>cred.go\<close> is given with each).
\<close>

datatype pc =
    RLock          \<comment> \<open>line 24\<close>
  | ReadExpire     \<comment> \<open>line 25\<close>
  | ReadStr        \<comment> \<open>line 26\<close>
  | ReadKey        \<comment> \<open>line 27\<close>
  | RUnlock        \<comment> \<open>line 28\<close>
  | Check          \<comment> \<open>lines 30 and 32\<close>
  | Gen            \<comment> \<open>lines 33 to 40\<close>
  | Lock           \<comment> \<open>line 42, the call of \<^verbatim>\<open>Lock\<close>\<close>
  | LockWait       \<comment> \<open>line 42, waiting for the readers to leave\<close>
  | WriteExpire    \<comment> \<open>line 43\<close>
  | WriteStr       \<comment> \<open>line 44\<close>
  | Unlock         \<comment> \<open>line 45\<close>
  | LogRefreshed   \<comment> \<open>line 47\<close>
  | Attach         \<comment> \<open>line 50\<close>
  | Return         \<comment> \<open>line 52\<close>
  | Done           \<comment> \<open>the call has returned\<close>

text \<open>
  A goroutine in a call: where it is, its local variables \<^verbatim>\<open>exp\<close>, \<^verbatim>\<open>tok\<close>,
  \<^verbatim>\<open>sharedKey\<close> and \<^verbatim>\<open>meta\<close>, and what it has returned, if it has.
\<close>

record 'e goroutine =
  at :: pc
  var_exp :: int64
  var_tok :: string
  var_sharedKey :: "byte list"
  var_meta :: "string \<rightharpoonup> string"
  returned :: "((string \<rightharpoonup> string) \<times> 'e option) option"

text \<open>
  The shared state: the credential, the \<^verbatim>\<open>sync.RWMutex\<close> it points to, the goroutines and
  the events so far. The lock follows the documentation of \<^verbatim>\<open>sync.RWMutex\<close>: it is held
  by any number of readers or by one writer, and a writer that has called \<^verbatim>\<open>Lock\<close> keeps
  new readers out while it waits for the present ones to leave. \<open>readers\<close> counts the
  goroutines that hold the lock for reading; \<open>writer\<close> says that a goroutine has called
  \<^verbatim>\<open>Lock\<close> and not yet returned from \<^verbatim>\<open>Unlock\<close>.
\<close>

record 'e state =
  cred :: perRPCCreds
  readers :: nat
  writer :: bool
  goroutines :: "'e goroutine list"
  trace :: "'e event list"

text \<open>
  At the start no goroutine has entered its call: the local variables have Go's zero
  values, and the lock is free.
\<close>

definition init :: "perRPCCreds \<Rightarrow> nat \<Rightarrow> 'e state" where
  "init c n =
     \<lparr>cred = c, readers = 0, writer = False,
      goroutines = replicate n \<lparr>at = RLock, var_exp = 0, var_tok = '''', var_sharedKey = [],
                                 var_meta = Map.empty, returned = None\<rparr>,
      trace = []\<rparr>"

text \<open>
  One statement of goroutine \<open>i\<close>. The result is \<open>None\<close> when the goroutine cannot go
  on: there is no such goroutine, it has returned, it is blocked in \<^verbatim>\<open>RLock\<close> or \<^verbatim>\<open>Lock\<close>,
  or it unlocks a lock that is not locked (a fatal error of the Go runtime).
  \<open>GenUserToken i\<close> and \<open>now i\<close> are \<^verbatim>\<open>token.GenUserToken\<close> and \<^verbatim>\<open>time.Now().Unix()\<close>
  as goroutine \<open>i\<close> finds them when it calls them.
\<close>

definition step ::
  "(nat \<Rightarrow> ('e, 'u) GenUserToken) \<Rightarrow> (nat \<Rightarrow> int64) \<Rightarrow> nat \<Rightarrow> 'e state \<Rightarrow> 'e state option"
where
  "step GenUserToken now i s =
    (if length (goroutines s) \<le> i then None
     else
       let g = goroutines s ! i;
           goto = (\<lambda>g' s'. Some (s'\<lparr>goroutines := (goroutines s)[i := g']\<rparr>))
       in
         case at g of
           RLock \<Rightarrow>
             if writer s then None
             else goto (g\<lparr>at := ReadExpire\<rparr>) (s\<lparr>readers := readers s + 1\<rparr>)
         | ReadExpire \<Rightarrow> goto (g\<lparr>var_exp := tokenExpire (cred s), at := ReadStr\<rparr>) s
         | ReadStr \<Rightarrow> goto (g\<lparr>var_tok := tokenStr (cred s), at := ReadKey\<rparr>) s
         | ReadKey \<Rightarrow> goto (g\<lparr>var_sharedKey := sharedKey (cred s), at := RUnlock\<rparr>) s
         | RUnlock \<Rightarrow>
             if readers s = 0 then None
             else goto (g\<lparr>at := Check\<rparr>) (s\<lparr>readers := readers s - 1\<rparr>)
         | Check \<Rightarrow>
             if var_exp g - 300 <s now i
             then goto (g\<lparr>var_meta := Map.empty, at := Gen\<rparr>) s
             else goto (g\<lparr>var_meta := Map.empty, at := Attach\<rparr>) s
         | Gen \<Rightarrow>
             (case GenUserToken i ''ssgrpcClient'' time_Hour (var_sharedKey g) of
                Inl e \<Rightarrow>
                  goto (g\<lparr>returned := Some (var_meta g, Some e), at := Done\<rparr>)
                    (s\<lparr>trace := trace s @
                       [CallGenUserToken ''ssgrpcClient'' time_Hour (var_sharedKey g),
                        LogErr ''gen token error:'' e]\<rparr>)
              | Inr (u, t) \<Rightarrow>
                  goto (g\<lparr>var_exp := EXP u, var_tok := t, at := Lock\<rparr>)
                    (s\<lparr>trace := trace s @
                       [CallGenUserToken ''ssgrpcClient'' time_Hour (var_sharedKey g)]\<rparr>))
         | Lock \<Rightarrow>
             if writer s then None
             else goto (g\<lparr>at := LockWait\<rparr>) (s\<lparr>writer := True\<rparr>)
         | LockWait \<Rightarrow>
             if readers s \<noteq> 0 then None
             else goto (g\<lparr>at := WriteExpire\<rparr>) s
         | WriteExpire \<Rightarrow>
             goto (g\<lparr>at := WriteStr\<rparr>) (s\<lparr>cred := (cred s)\<lparr>tokenExpire := var_exp g\<rparr>\<rparr>)
         | WriteStr \<Rightarrow>
             goto (g\<lparr>at := Unlock\<rparr>) (s\<lparr>cred := (cred s)\<lparr>tokenStr := var_tok g\<rparr>\<rparr>)
         | Unlock \<Rightarrow>
             if \<not> writer s then None
             else goto (g\<lparr>at := LogRefreshed\<rparr>) (s\<lparr>writer := False\<rparr>)
         | LogRefreshed \<Rightarrow>
             goto (g\<lparr>at := Attach\<rparr>) (s\<lparr>trace := trace s @ [LogInfo ''token refreshed'']\<rparr>)
         | Attach \<Rightarrow>
             goto (g\<lparr>var_meta := (var_meta g)(''authorization'' \<mapsto> ''Bearer '' @ var_tok g),
                     at := Return\<rparr>) s
         | Return \<Rightarrow> goto (g\<lparr>returned := Some (var_meta g, None), at := Done\<rparr>) s
         | Done \<Rightarrow> None)"

text \<open>
  A schedule is the list of the goroutines that take the next statement, in order. It
  runs to a state when every goroutine in it can go on when its turn comes.
\<close>

fun run ::
  "(nat \<Rightarrow> ('e, 'u) GenUserToken) \<Rightarrow> (nat \<Rightarrow> int64) \<Rightarrow> nat list \<Rightarrow> 'e state \<Rightarrow> 'e state option"
where
  "run GenUserToken now [] s = Some s"
| "run GenUserToken now (i # sched) s =
     (case step GenUserToken now i s of
        None \<Rightarrow> None
      | Some s' \<Rightarrow> run GenUserToken now sched s')"

text \<open>
  The pairs of token string and expiry that belong together: the pair the credential
  starts with, and the pairs that \<^verbatim>\<open>token.GenUserToken\<close> returns to one of the
  goroutines.
\<close>

definition issued_pairs ::
  "(nat \<Rightarrow> ('e, 'u) GenUserToken) \<Rightarrow> perRPCCreds \<Rightarrow> nat \<Rightarrow> (string \<times> int64) list"
where
  "issued_pairs GenUserToken c n =
     concat (map (\<lambda>j. case GenUserToken j ''ssgrpcClient'' time_Hour (sharedKey c) of
                        Inl e \<Rightarrow> []
                      | Inr (u, t) \<Rightarrow> [(t, EXP u)]) [0..<n])"

definition whole_pairs ::
  "(nat \<Rightarrow> ('e, 'u) GenUserToken) \<Rightarrow> perRPCCreds \<Rightarrow> nat \<Rightarrow> (string \<times> int64) list"
where
  "whole_pairs GenUserToken c n = (tokenStr c, tokenExpire c) # issued_pairs GenUserToken c n"

text \<open>The token string and expiry that a goroutine holds in its local variables.\<close>

definition observed :: "'e goroutine \<Rightarrow> string \<times> int64" where
  "observed g = (var_tok g, var_exp g)"

text \<open>The sections of a call: under the read lock, under the write lock, and after both
  fields have been read.\<close>

fun in_read :: "pc \<Rightarrow> bool" where
  "in_read ReadExpire = True"
| "in_read ReadStr = True"
| "in_read ReadKey = True"
| "in_read RUnlock = True"
| "in_read _ = False"

fun in_write :: "pc \<Rightarrow> bool" where
  "in_write WriteExpire = True"
| "in_write WriteStr = True"
| "in_write Unlock = True"
| "in_write _ = False"

fun has_read :: "pc \<Rightarrow> bool" where
  "has_read RLock = False"
| "has_read ReadExpire = False"
| "has_read ReadStr = False"
| "has_read _ = True"

text \<open>
  Goroutine \<open>i\<close> holds the lock for writing, and it is the only goroutine that holds
  the lock in either way.
\<close>

definition holds_exclusively :: "nat \<Rightarrow> 'e state \<Rightarrow> bool" where
  "holds_exclusively i s =
     (i < length (goroutines s) \<and> in_write (at (goroutines s ! i)) \<and>
      writer s \<and> readers s = 0 \<and>
      length (filter (\<lambda>g. in_read (at g)) (goroutines s)) = 0 \<and>
      length (filter (\<lambda>g. in_write (at g)) (goroutines s)) = 1)"

text \<open>
  How many statements a call has left at most, and the sum over the goroutines.
\<close>

fun rank :: "pc \<Rightarrow> nat" where
  "rank RLock = 15"
| "rank ReadExpire = 14"
| "rank ReadStr = 13"
| "rank ReadKey = 12"
| "rank RUnlock = 11"
| "rank Check = 10"
| "rank Gen = 9"
| "rank Lock = 8"
| "rank LockWait = 7"
| "rank WriteExpire = 6"
| "rank WriteStr = 5"
| "rank Unlock = 4"
| "rank LogRefreshed = 3"
| "rank Attach = 2"
| "rank Return = 1"
| "rank Done = 0"

definition statements_left :: "'e state \<Rightarrow> nat" where
  "statements_left s = sum_list (map (\<lambda>g. rank (at g)) (goroutines s))"

definition all_returned :: "'e state \<Rightarrow> bool" where
  "all_returned s = list_all (\<lambda>g. at g = Done) (goroutines s)"

definition can_go_on ::
  "(nat \<Rightarrow> ('e, 'u) GenUserToken) \<Rightarrow> (nat \<Rightarrow> int64) \<Rightarrow> 'e state \<Rightarrow> bool"
where
  "can_go_on GenUserToken now s =
     list_ex (\<lambda>i. step GenUserToken now i s \<noteq> None) [0..<length (goroutines s)]"

text \<open>
  What holds in every state that a schedule runs to. First the lock: \<open>readers\<close> is the
  number of goroutines under the read lock, \<open>writer\<close> is set exactly when a goroutine is
  between its call of \<^verbatim>\<open>Lock\<close> and its return from \<^verbatim>\<open>Unlock\<close>, there is at most one such
  goroutine, and while it is past the wait no goroutine is under the read lock.
\<close>

fun has_called_Lock :: "pc \<Rightarrow> bool" where
  "has_called_Lock LockWait = True"
| "has_called_Lock WriteExpire = True"
| "has_called_Lock WriteStr = True"
| "has_called_Lock Unlock = True"
| "has_called_Lock _ = False"

definition lock_inv :: "'e state \<Rightarrow> bool" where
  "lock_inv s =
     (readers s = length (filter (\<lambda>g. in_read (at g)) (goroutines s)) \<and>
      length (filter (\<lambda>g. has_called_Lock (at g)) (goroutines s)) = (if writer s then 1 else 0) \<and>
      ((\<exists>g \<in> set (goroutines s). in_write (at g)) \<longrightarrow> readers s = 0))"

text \<open>
  Then the data. The key is never written. Unless a writer is between its two writes,
  the credential holds a whole pair; between the two writes the expiry is already the
  writer's. A reader that has read the expiry and not yet the token string holds the
  stored expiry. A goroutine that has read both holds a whole pair, and one that has read
  the key holds the credential's key.
\<close>

fun has_key :: "pc \<Rightarrow> bool" where
  "has_key RLock = False"
| "has_key ReadExpire = False"
| "has_key ReadStr = False"
| "has_key ReadKey = False"
| "has_key _ = True"

definition goroutine_inv ::
  "(nat \<Rightarrow> ('e, 'u) GenUserToken) \<Rightarrow> perRPCCreds \<Rightarrow> nat \<Rightarrow> perRPCCreds \<Rightarrow> 'e goroutine \<Rightarrow> bool"
where
  "goroutine_inv GenUserToken c n stored g =
     ((at g = WriteStr \<longrightarrow> tokenExpire stored = var_exp g) \<and>
      (at g = ReadStr \<longrightarrow> var_exp g = tokenExpire stored) \<and>
      (has_read (at g) \<longrightarrow> observed g \<in> set (whole_pairs GenUserToken c n)) \<and>
      (has_key (at g) \<longrightarrow> var_sharedKey g = sharedKey c))"

definition data_inv ::
  "(nat \<Rightarrow> ('e, 'u) GenUserToken) \<Rightarrow> perRPCCreds \<Rightarrow> nat \<Rightarrow> 'e state \<Rightarrow> bool"
where
  "data_inv GenUserToken c n s =
     (length (goroutines s) = n \<and>
      sharedKey (cred s) = sharedKey c \<and>
      ((\<forall>g \<in> set (goroutines s). at g \<noteq> WriteStr) \<longrightarrow>
         (tokenStr (cred s), tokenExpire (cred s)) \<in> set (whole_pairs GenUserToken c n)) \<and>
      (\<forall>g \<in> set (goroutines s). goroutine_inv GenUserToken c n (cred s) g))"

text \<open>
  And what a call returns: the map is empty until line 50 fills it with the token the
  goroutine holds, and a call that has returned has returned either an error with the
  empty map, or no error with that one entry.
\<close>

fun meta_is_empty :: "pc \<Rightarrow> bool" where
  "meta_is_empty Gen = True"
| "meta_is_empty Lock = True"
| "meta_is_empty LockWait = True"
| "meta_is_empty WriteExpire = True"
| "meta_is_empty WriteStr = True"
| "meta_is_empty Unlock = True"
| "meta_is_empty LogRefreshed = True"
| "meta_is_empty Attach = True"
| "meta_is_empty _ = False"

definition returns_whole :: "'e goroutine \<Rightarrow> bool" where
  "returns_whole g =
     (case returned g of
        None \<Rightarrow> False
      | Some (m, None) \<Rightarrow> m = [''authorization'' \<mapsto> ''Bearer '' @ var_tok g]
      | Some (m, Some e) \<Rightarrow> m = Map.empty)"

definition meta_inv :: "'e goroutine \<Rightarrow> bool" where
  "meta_inv g =
     ((meta_is_empty (at g) \<longrightarrow> var_meta g = Map.empty) \<and>
      (at g = Return \<longrightarrow> var_meta g = [''authorization'' \<mapsto> ''Bearer '' @ var_tok g]) \<and>
      (at g = Done \<longrightarrow> returns_whole g))"

text \<open>The three together hold at the start and after every statement.\<close>

definition reach_inv ::
  "(nat \<Rightarrow> ('e, 'u) GenUserToken) \<Rightarrow> perRPCCreds \<Rightarrow> nat \<Rightarrow> 'e state \<Rightarrow> bool"
where
  "reach_inv GenUserToken c n s =
     (lock_inv s \<and> data_inv GenUserToken c n s \<and> (\<forall>g \<in> set (goroutines s). meta_inv g))"


text \<open>
  What is left of a run of one goroutine alone: whether it has returned, the credential,
  the events, what it has returned, and the lock.
\<close>

definition summary ::
  "'e state \<Rightarrow> bool \<times> perRPCCreds \<times> 'e event list \<times>
     ((string \<rightharpoonup> string) \<times> 'e option) option \<times> nat \<times> bool"
where
  "summary s =
     (all_returned s, cred s, trace s, returned (goroutines s ! 0), readers s, writer s)"

subsection \<open>Facts about one call\<close>


lemma sint_sub_300:
  fixes x :: int64
  assumes "- (2 ^ 63) + 300 \<le> sint x"
  shows "sint (x - 300) = sint x - 300"
proof -
  have "sint x < 2 ^ 63" using sint_lt [of x] by simp
  with assms show ?thesis
    by (simp add: sint_word_ariths signed_take_bit_int_eq_self)
qed

lemma grm_refresh_err:
  "tokenExpire c - 300 <s now \<Longrightarrow> gen ''ssgrpcClient'' time_Hour (sharedKey c) = Inl e \<Longrightarrow>
   GetRequestMetadata gen now ctx uri c =
     \<lparr>meta = Map.empty, err = Some e, creds = c,
      events = [CallGenUserToken ''ssgrpcClient'' time_Hour (sharedKey c),
                LogErr ''gen token error:'' e]\<rparr>"
  by (simp add: GetRequestMetadata_def Let_def)

lemma grm_refresh_ok:
  "tokenExpire c - 300 <s now \<Longrightarrow> gen ''ssgrpcClient'' time_Hour (sharedKey c) = Inr (u, t) \<Longrightarrow>
   GetRequestMetadata gen now ctx uri c =
     \<lparr>meta = [''authorization'' \<mapsto> ''Bearer '' @ t], err = None,
      creds = c\<lparr>tokenExpire := EXP u, tokenStr := t\<rparr>,
      events = [CallGenUserToken ''ssgrpcClient'' time_Hour (sharedKey c),
                LogInfo ''token refreshed'']\<rparr>"
  by (simp add: GetRequestMetadata_def Let_def)

lemma grm_current:
  "\<not> tokenExpire c - 300 <s now \<Longrightarrow>
   GetRequestMetadata gen now ctx uri c =
     \<lparr>meta = [''authorization'' \<mapsto> ''Bearer '' @ tokenStr c], err = None,
      creds = c, events = []\<rparr>"
  by (simp add: GetRequestMetadata_def Let_def)

lemma grm_cases:
  obtains (current) "\<not> tokenExpire c - 300 <s now"
  | (failed) e where "tokenExpire c - 300 <s now" "gen ''ssgrpcClient'' time_Hour (sharedKey c) = Inl e"
  | (refreshed) u t where "tokenExpire c - 300 <s now" "gen ''ssgrpcClient'' time_Hour (sharedKey c) = Inr (u, t)"
  by (cases "tokenExpire c - 300 <s now"; cases "gen ''ssgrpcClient'' time_Hour (sharedKey c)") auto

lemma issuance_iff_due:
  "list_ex is_issuance (events (GetRequestMetadata gen now ctx uri c))
     \<longleftrightarrow> tokenExpire c - 300 <s now"
  by (cases rule: grm_cases [where c = c and now = now and gen = gen])
    (simp_all add: grm_current grm_refresh_err grm_refresh_ok)

lemma due_int:
  assumes "- (2 ^ 63) + 300 \<le> sint (tokenExpire c)"
  shows "tokenExpire c - 300 <s now \<longleftrightarrow> sint (tokenExpire c) - 300 < sint now"
  using assms by (simp add: word_sless_alt sint_sub_300)

lemma hour_ahead_not_due:
  assumes "sint (tokenExpire c) = sint now + 3600"
  shows "\<not> tokenExpire c - 300 <s now"
proof -
  have "- (2 ^ 63) \<le> sint now" using sint_ge [of now] by simp
  with assms have "- (2 ^ 63) + 300 \<le> sint (tokenExpire c)" by simp
  from due_int [OF this] assms show ?thesis by simp
qed

text \<open>
  Claim C1. A call issues a token (calls \<^verbatim>\<open>token.GenUserToken\<close>) if and only if the stored
  expiry minus 300 is less than the current Unix time, in \<^verbatim>\<open>int64\<close> arithmetic; as long as
  the subtraction does not wrap around, that is the comparison of the integers. In
  particular a credential whose expiry is one hour after the current time is not
  refreshed: when a call has refreshed the credential and the new expiry is an hour
  ahead, a call that follows at once issues nothing.
\<close>
theorem refresh_iff_margin_passed:
  "(list_ex is_issuance (events (GetRequestMetadata gen now ctx uri c))
      \<longleftrightarrow> tokenExpire c - 300 <s now) \<and>
   (- (2 ^ 63) + 300 \<le> sint (tokenExpire c) \<longrightarrow>
      (list_ex is_issuance (events (GetRequestMetadata gen now ctx uri c))
         \<longleftrightarrow> sint (tokenExpire c) - 300 < sint now)) \<and>
   (sint (tokenExpire c) = sint now + 3600 \<longrightarrow>
      \<not> list_ex is_issuance (events (GetRequestMetadata gen now ctx uri c))) \<and>
   (tokenExpire c - 300 <s now \<and>
    gen ''ssgrpcClient'' time_Hour (sharedKey c) = Inr (u, t) \<and>
    sint (EXP u) = sint now + 3600 \<longrightarrow>
      creds (GetRequestMetadata gen now ctx uri c) = c\<lparr>tokenExpire := EXP u, tokenStr := t\<rparr> \<and>
      \<not> list_ex is_issuance
          (events (GetRequestMetadata gen' now ctx' uri'
             (creds (GetRequestMetadata gen now ctx uri c)))))"
proof -
  let ?r = "GetRequestMetadata gen now ctx uri c"
  note iff = issuance_iff_due [of gen now ctx uri c]
  have int: "list_ex is_issuance (events ?r) \<longleftrightarrow> sint (tokenExpire c) - 300 < sint now"
    if "- (2 ^ 63) + 300 \<le> sint (tokenExpire c)"
    using due_int [OF that] iff by simp
  have fresh: "\<not> list_ex is_issuance (events ?r)"
    if "sint (tokenExpire c) = sint now + 3600"
    using hour_ahead_not_due [OF that] iff by simp
  have again: "creds ?r = c\<lparr>tokenExpire := EXP u, tokenStr := t\<rparr> \<and>
      \<not> list_ex is_issuance (events (GetRequestMetadata gen' now ctx' uri' (creds ?r)))"
    if due: "tokenExpire c - 300 <s now"
      and ok: "gen ''ssgrpcClient'' time_Hour (sharedKey c) = Inr (u, t)"
      and hour: "sint (EXP u) = sint now + 3600"
  proof -
    from due ok have new: "creds ?r = c\<lparr>tokenExpire := EXP u, tokenStr := t\<rparr>"
      by (simp add: grm_refresh_ok)
    with hour have "sint (tokenExpire (creds ?r)) = sint now + 3600" by simp
    from hour_ahead_not_due [OF this] new show ?thesis
      by (simp add: issuance_iff_due)
  qed
  from iff int fresh again show ?thesis by blast
qed

theorem refresh_iff_margin_passed_witness:
  "(0 :: int64) - 300 <s 1000 \<and> sint (4600 :: int64) = sint (1000 :: int64) + 3600 \<and>
   creds (GetRequestMetadata
      (\<lambda>s d k. Inr (\<lparr>EXP = 4600\<rparr>, ''new'') :: string + User \<times> string) 1000 () []
      \<lparr>tokenStr = ''old'', tokenExpire = 0, sharedKey = [1, 2]\<rparr>)
     = \<lparr>tokenStr = ''new'', tokenExpire = 4600, sharedKey = [1, 2]\<rparr> \<and>
   list_ex is_issuance (events (GetRequestMetadata
      (\<lambda>s d k. Inr (\<lparr>EXP = 4600\<rparr>, ''new'') :: string + User \<times> string) 1000 () []
      \<lparr>tokenStr = ''old'', tokenExpire = 0, sharedKey = [1, 2]\<rparr>)) \<and>
   \<not> list_ex is_issuance (events (GetRequestMetadata
      (\<lambda>s d k. Inr (\<lparr>EXP = 4600\<rparr>, ''new'') :: string + User \<times> string) 1000 () []
      \<lparr>tokenStr = ''new'', tokenExpire = 4600, sharedKey = [1, 2]\<rparr>))"
  using refresh_iff_margin_passed [where gen = "\<lambda>s d k. Inr (\<lparr>EXP = 4600\<rparr>, ''new'') :: string + User \<times> string"
      and gen' = "\<lambda>s d k. Inr (\<lparr>EXP = 4600\<rparr>, ''new'') :: string + User \<times> string"
      and now = 1000 and ctx = "()" and uri = "[]" and ctx' = "()" and uri' = "[]"
      and u = "\<lparr>EXP = 4600\<rparr>" and t = "''new''"
      and c = "\<lparr>tokenStr = ''old'', tokenExpire = 0, sharedKey = [1, 2]\<rparr>"]
  by (simp cong: conj_cong)

text \<open>
  Claim C3. When the expiry check asks for a refresh and \<^verbatim>\<open>token.GenUserToken\<close> fails with
  the error \<open>e\<close>, the call returns \<open>e\<close> and the empty map: the key
  \<^verbatim>\<open>authorization\<close> is not in it.
\<close>
theorem issuance_failure_returns_error_and_empty_meta:
  assumes "tokenExpire c - 300 <s now"
    and "gen ''ssgrpcClient'' time_Hour (sharedKey c) = Inl e"
  shows "err (GetRequestMetadata gen now ctx uri c) = Some e \<and>
         meta (GetRequestMetadata gen now ctx uri c) = Map.empty \<and>
         meta (GetRequestMetadata gen now ctx uri c) ''authorization'' = None"
  using assms by (simp add: grm_refresh_err)

theorem issuance_failure_returns_error_and_empty_meta_witness:
  "(0 :: int64) - 300 <s 1000 \<and>
   err (GetRequestMetadata (\<lambda>s d k. Inl ''sign'' :: string + User \<times> string) 1000 () [''peer'']
      \<lparr>tokenStr = ''old'', tokenExpire = 0, sharedKey = [1, 2]\<rparr>) = Some ''sign'' \<and>
   meta (GetRequestMetadata (\<lambda>s d k. Inl ''sign'' :: string + User \<times> string) 1000 () [''peer'']
      \<lparr>tokenStr = ''old'', tokenExpire = 0, sharedKey = [1, 2]\<rparr>) ''authorization'' = None"
  using issuance_failure_returns_error_and_empty_meta [where gen = "\<lambda>s d k. Inl ''sign'' :: string + User \<times> string"
      and now = 1000 and ctx = "()" and uri = "[''peer'']" and e = "''sign''"
      and c = "\<lparr>tokenStr = ''old'', tokenExpire = 0, sharedKey = [1, 2]\<rparr>"]
  by simp

text \<open>
  Claim C4. When issuance fails the credential is left exactly as it was, and so every
  later call, at a time that is not earlier, attempts issuance again.
\<close>
theorem issuance_failure_keeps_credential:
  assumes "tokenExpire c - 300 <s now"
    and "gen ''ssgrpcClient'' time_Hour (sharedKey c) = Inl e"
  shows "creds (GetRequestMetadata gen now ctx uri c) = c \<and>
         (now \<le>s now' \<longrightarrow>
            list_ex is_issuance
              (events (GetRequestMetadata gen' now' ctx' uri'
                 (creds (GetRequestMetadata gen now ctx uri c)))))"
proof -
  have same: "creds (GetRequestMetadata gen now ctx uri c) = c"
    using assms by (simp add: grm_refresh_err)
  have "tokenExpire c - 300 <s now'" if "now \<le>s now'"
    using that assms(1) by (simp add: word_sless_alt word_sle_eq)
  then have "list_ex is_issuance (events (GetRequestMetadata gen' now' ctx' uri' c))"
    if "now \<le>s now'"
    using that
    by (cases rule: grm_cases [where c = c and now = now' and gen = gen'])
      (simp_all add: grm_refresh_err grm_refresh_ok)
  with same show ?thesis by simp
qed

theorem issuance_failure_keeps_credential_witness:
  "(0 :: int64) - 300 <s 1000 \<and> (1000 :: int64) \<le>s 1001 \<and>
   creds (GetRequestMetadata (\<lambda>s d k. Inl ''sign'' :: string + User \<times> string) 1000 () []
      \<lparr>tokenStr = ''old'', tokenExpire = 0, sharedKey = [1, 2]\<rparr>)
     = \<lparr>tokenStr = ''old'', tokenExpire = 0, sharedKey = [1, 2]\<rparr> \<and>
   list_ex is_issuance (events (GetRequestMetadata
      (\<lambda>s d k. Inr (\<lparr>EXP = 4601\<rparr>, ''new'') :: string + User \<times> string) 1001 () []
      (creds (GetRequestMetadata (\<lambda>s d k. Inl ''sign'' :: string + User \<times> string) 1000 () []
         \<lparr>tokenStr = ''old'', tokenExpire = 0, sharedKey = [1, 2]\<rparr>))))"
  using issuance_failure_keeps_credential [where gen = "\<lambda>s d k. Inl ''sign'' :: string + User \<times> string"
      and now = 1000 and ctx = "()" and uri = "[]" and e = "''sign''"
      and c = "\<lparr>tokenStr = ''old'', tokenExpire = 0, sharedKey = [1, 2]\<rparr>"
      and now' = 1001 and ctx' = "()" and uri' = "[]"
      and gen' = "\<lambda>s d k. Inr (\<lparr>EXP = 4601\<rparr>, ''new'') :: string + User \<times> string"]
  by (simp cong: conj_cong)

text \<open>
  Claim C5. \<open>expiry_of\<close> reads the expiry encoded in a token string; it belongs to the
  token package, of which nothing more is assumed than that the token it issues here
  encodes the expiry it reports. Then a credential whose expiry field is the expiry
  encoded in its token string is so again after the call. The two fields are written
  together or not at all: after the call either both are as before, or both come from
  the one result of \<^verbatim>\<open>token.GenUserToken\<close>.
\<close>
theorem token_and_expiry_written_together:
  assumes issued: "\<And>u t. gen ''ssgrpcClient'' time_Hour (sharedKey c) = Inr (u, t) \<Longrightarrow> expiry_of t = EXP u"
    and before: "expiry_of (tokenStr c) = tokenExpire c"
  shows "expiry_of (tokenStr (creds (GetRequestMetadata gen now ctx uri c)))
           = tokenExpire (creds (GetRequestMetadata gen now ctx uri c)) \<and>
         ((tokenStr (creds (GetRequestMetadata gen now ctx uri c)) = tokenStr c \<and>
           tokenExpire (creds (GetRequestMetadata gen now ctx uri c)) = tokenExpire c) \<or>
          (\<exists>u t. gen ''ssgrpcClient'' time_Hour (sharedKey c) = Inr (u, t) \<and>
             tokenStr (creds (GetRequestMetadata gen now ctx uri c)) = t \<and>
             tokenExpire (creds (GetRequestMetadata gen now ctx uri c)) = EXP u))"
proof (cases rule: grm_cases [where c = c and now = now and gen = gen])
  case current
  with before show ?thesis by (simp add: grm_current)
next
  case (failed e)
  with before show ?thesis by (simp add: grm_refresh_err)
next
  case (refreshed u t)
  with issued [of u t] show ?thesis by (simp add: grm_refresh_ok)
qed


theorem token_and_expiry_written_together_witness:
  "(if ''new'' = ''new'' then (4600 :: int64) else 0) = EXP \<lparr>EXP = 4600\<rparr> \<and>
   (if ''new'' = ''new'' then (4600 :: int64) else 0)
     = tokenExpire (creds (GetRequestMetadata
         (\<lambda>s d k. Inr (\<lparr>EXP = 4600\<rparr>, ''new'') :: string + User \<times> string) 1000 () []
         \<lparr>tokenStr = '''', tokenExpire = 0, sharedKey = [1, 2]\<rparr>)) \<and>
   tokenStr (creds (GetRequestMetadata
         (\<lambda>s d k. Inr (\<lparr>EXP = 4600\<rparr>, ''new'') :: string + User \<times> string) 1000 () []
         \<lparr>tokenStr = '''', tokenExpire = 0, sharedKey = [1, 2]\<rparr>)) = ''new''"
  using token_and_expiry_written_together [where gen = "\<lambda>s d k. Inr (\<lparr>EXP = 4600\<rparr>, ''new'') :: string + User \<times> string"
      and expiry_of = "\<lambda>t. if t = ''new'' then 4600 else 0"
      and now = 1000 and ctx = "()" and uri = "[]"
      and c = "\<lparr>tokenStr = '''', tokenExpire = 0, sharedKey = [1, 2]\<rparr>"]
  by (simp add: GetRequestMetadata_def Let_def)

text \<open>
  Claim C6. A call that returns no error returns a map with exactly one key,
  \<^verbatim>\<open>authorization\<close>, whose value is \<^verbatim>\<open>Bearer\<close>, a space and the token string that the
  credential holds after the call; that value is not the empty string.
\<close>
theorem success_attaches_bearer_token:
  assumes "err (GetRequestMetadata gen now ctx uri c) = None"
  shows "meta (GetRequestMetadata gen now ctx uri c) ''authorization''
           = Some (''Bearer '' @ tokenStr (creds (GetRequestMetadata gen now ctx uri c))) \<and>
         dom (meta (GetRequestMetadata gen now ctx uri c)) = {''authorization''} \<and>
         ''Bearer '' @ tokenStr (creds (GetRequestMetadata gen now ctx uri c)) \<noteq> ''''"
proof (cases rule: grm_cases [where c = c and now = now and gen = gen])
  case current
  then show ?thesis by (simp add: grm_current)
next
  case (failed e)
  with assms show ?thesis by (simp add: grm_refresh_err)
next
  case (refreshed u t)
  then show ?thesis by (simp add: grm_refresh_ok)
qed

theorem success_attaches_bearer_token_witness:
  "err (GetRequestMetadata
      (\<lambda>s d k. Inr (\<lparr>EXP = 4600\<rparr>, ''new'') :: string + User \<times> string) 1000 () []
      \<lparr>tokenStr = ''old'', tokenExpire = 0, sharedKey = [1, 2]\<rparr>) = None \<and>
   meta (GetRequestMetadata
      (\<lambda>s d k. Inr (\<lparr>EXP = 4600\<rparr>, ''new'') :: string + User \<times> string) 1000 () []
      \<lparr>tokenStr = ''old'', tokenExpire = 0, sharedKey = [1, 2]\<rparr>) ''authorization''
     = Some ''Bearer new''"
  using success_attaches_bearer_token [where gen = "\<lambda>s d k. Inr (\<lparr>EXP = 4600\<rparr>, ''new'') :: string + User \<times> string"
      and now = 1000 and ctx = "()" and uri = "[]"
      and c = "\<lparr>tokenStr = ''old'', tokenExpire = 0, sharedKey = [1, 2]\<rparr>"]
  by (simp add: GetRequestMetadata_def Let_def)

text \<open>
  Claim C7. When the current time is at most the stored expiry minus 300 (in \<^verbatim>\<open>int64\<close>
  arithmetic), the call returns the stored token without an error, leaves the credential
  as it was, and neither issues a token nor logs.
\<close>
theorem current_token_returned_unchanged:
  assumes "now \<le>s tokenExpire c - 300"
  shows "meta (GetRequestMetadata gen now ctx uri c)
           = [''authorization'' \<mapsto> ''Bearer '' @ tokenStr c] \<and>
         err (GetRequestMetadata gen now ctx uri c) = None \<and>
         creds (GetRequestMetadata gen now ctx uri c) = c \<and>
         events (GetRequestMetadata gen now ctx uri c) = []"
proof -
  from assms have "\<not> tokenExpire c - 300 <s now"
    by (simp add: word_sless_alt word_sle_eq)
  then show ?thesis by (simp add: grm_current)
qed

theorem current_token_returned_unchanged_witness:
  "(1000 :: int64) \<le>s 4600 - 300 \<and>
   meta (GetRequestMetadata
      (\<lambda>s d k. Inr (\<lparr>EXP = 8200\<rparr>, ''new'') :: string + User \<times> string) 1000 () []
      \<lparr>tokenStr = ''old'', tokenExpire = 4600, sharedKey = [1, 2]\<rparr>)
     = [''authorization'' \<mapsto> ''Bearer old''] \<and>
   creds (GetRequestMetadata
      (\<lambda>s d k. Inr (\<lparr>EXP = 8200\<rparr>, ''new'') :: string + User \<times> string) 1000 () []
      \<lparr>tokenStr = ''old'', tokenExpire = 4600, sharedKey = [1, 2]\<rparr>)
     = \<lparr>tokenStr = ''old'', tokenExpire = 4600, sharedKey = [1, 2]\<rparr>"
  using current_token_returned_unchanged [where gen = "\<lambda>s d k. Inr (\<lparr>EXP = 8200\<rparr>, ''new'') :: string + User \<times> string"
      and now = 1000 and ctx = "()" and uri = "[]"
      and c = "\<lparr>tokenStr = ''old'', tokenExpire = 4600, sharedKey = [1, 2]\<rparr>"]
  by simp

text \<open>
  Claim C8. \<^verbatim>\<open>RequireTransportSecurity\<close> is true of every credential.
\<close>
theorem RequireTransportSecurity_always: "RequireTransportSecurity c = True"
  by (simp add: RequireTransportSecurity_def)

text \<open>
  Claim C9. On every path the field \<^verbatim>\<open>sharedKey\<close> is after the call what it was before:
  the credential after the call is the one before it with at most the fields
  \<^verbatim>\<open>tokenExpire\<close> and \<^verbatim>\<open>tokenStr\<close> written.
\<close>
theorem sharedKey_never_written:
  "sharedKey (creds (GetRequestMetadata gen now ctx uri c)) = sharedKey c \<and>
   creds (GetRequestMetadata gen now ctx uri c)
     = c\<lparr>tokenExpire := tokenExpire (creds (GetRequestMetadata gen now ctx uri c)),
         tokenStr := tokenStr (creds (GetRequestMetadata gen now ctx uri c))\<rparr>"
  by (cases rule: grm_cases [where c = c and now = now and gen = gen])
    (simp_all add: grm_current grm_refresh_err grm_refresh_ok)

text \<open>
  Claim C10. Every call of \<^verbatim>\<open>token.GenUserToken\<close> that \<^verbatim>\<open>GetRequestMetadata\<close> makes has the
  subject \<^verbatim>\<open>ssgrpcClient\<close>, the time-to-live \<^verbatim>\<open>time.Hour\<close> (3600 seconds in nanoseconds)
  and the stored key as arguments. The outcome of the call does not depend on the context
  or on the URIs, and it depends on \<^verbatim>\<open>token.GenUserToken\<close> only through its result at
  these three arguments.
\<close>
theorem issuance_fixed_subject_and_ttl:
  "(\<forall>ev \<in> set (events (GetRequestMetadata gen now ctx uri c)).
      is_issuance ev \<longrightarrow> ev = CallGenUserToken ''ssgrpcClient'' time_Hour (sharedKey c)) \<and>
   time_Hour = 60 * 60 * 1000000000 \<and>
   GetRequestMetadata gen now ctx' uri' c = GetRequestMetadata gen now ctx uri c \<and>
   (gen' ''ssgrpcClient'' time_Hour (sharedKey c) = gen ''ssgrpcClient'' time_Hour (sharedKey c) \<longrightarrow>
      GetRequestMetadata gen' now ctx uri c = GetRequestMetadata gen now ctx uri c)"
proof -
  have ev: "\<forall>ev \<in> set (events (GetRequestMetadata gen now ctx uri c)).
      is_issuance ev \<longrightarrow> ev = CallGenUserToken ''ssgrpcClient'' time_Hour (sharedKey c)"
    by (cases rule: grm_cases [where c = c and now = now and gen = gen])
      (simp_all add: grm_current grm_refresh_err grm_refresh_ok)
  have hour: "time_Hour = 60 * 60 * 1000000000"
    by (simp add: time_Hour_def)
  have args: "GetRequestMetadata gen now ctx' uri' c = GetRequestMetadata gen now ctx uri c"
    by (simp add: GetRequestMetadata_def Let_def)
  have gen: "GetRequestMetadata gen' now ctx uri c = GetRequestMetadata gen now ctx uri c"
    if "gen' ''ssgrpcClient'' time_Hour (sharedKey c) = gen ''ssgrpcClient'' time_Hour (sharedKey c)"
    using that by (simp add: GetRequestMetadata_def Let_def)
  from ev hour args gen show ?thesis by blast
qed

theorem issuance_fixed_subject_and_ttl_witness:
  "filter is_issuance (events (GetRequestMetadata
        (\<lambda>s d k. if s = ''ssgrpcClient'' then Inr (\<lparr>EXP = 4600\<rparr>, ''new'') else Inl ''subject'')
        1000 () [''a''] \<lparr>tokenStr = ''old'', tokenExpire = 0, sharedKey = [1, 2]\<rparr>))
     = [CallGenUserToken ''ssgrpcClient'' time_Hour [1, 2]] \<and>
   GetRequestMetadata (\<lambda>s d k. Inr (\<lparr>EXP = 4600\<rparr>, ''new'')) 1000 () [''a'']
        \<lparr>tokenStr = ''old'', tokenExpire = 0, sharedKey = [1, 2]\<rparr>
     = GetRequestMetadata
        (\<lambda>s d k. if s = ''ssgrpcClient'' then Inr (\<lparr>EXP = 4600\<rparr>, ''new'') else Inl ''subject'')
        1000 () [''a''] \<lparr>tokenStr = ''old'', tokenExpire = 0, sharedKey = [1, 2]\<rparr>"
  using issuance_fixed_subject_and_ttl [where gen = "\<lambda>s d k. if s = ''ssgrpcClient'' then Inr (\<lparr>EXP = 4600\<rparr>, ''new'') else Inl ''subject''"
      and gen' = "\<lambda>s d k. Inr (\<lparr>EXP = 4600\<rparr>, ''new'') :: string + User \<times> string"
      and now = 1000 and ctx = "()" and uri = "[''a'']" and ctx' = "()" and uri' = "[]"
      and c = "\<lparr>tokenStr = ''old'', tokenExpire = 0, sharedKey = [1, 2]\<rparr>"]
  by (simp add: GetRequestMetadata_def Let_def)



subsection \<open>Facts about concurrent calls\<close>

lemma filter_update_count:
  "i < length xs \<Longrightarrow>
   length (filter P (xs[i := y])) + (if P (xs ! i) then 1 else 0)
     = length (filter P xs) + (if P y then 1 else 0)"
proof (induction xs arbitrary: i)
  case Nil
  then show ?case by simp
next
  case (Cons x xs)
  show ?case
  proof (cases i)
    case 0
    then show ?thesis by simp
  next
    case (Suc k)
    with Cons.prems have "k < length xs" by simp
    from Cons.IH [OF this] Suc show ?thesis by simp
  qed
qed

lemma filter_count_pos:
  "i < length xs \<Longrightarrow> P (xs ! i) \<Longrightarrow> 0 < length (filter P xs)"
  by (metis filter_empty_conv length_greater_0_conv nth_mem)

lemma filter_count_ex:
  "0 < length (filter P xs) \<Longrightarrow> \<exists>i < length xs. P (xs ! i)"
  by (metis filter_empty_conv in_set_conv_nth length_greater_0_conv)


lemma count_upd_same:
  "i < length xs \<Longrightarrow> P (xs ! i) = P y \<Longrightarrow>
   length (filter P (xs[i := y])) = length (filter P xs)"
  using filter_update_count [of i xs P y] by (simp split: if_splits)

lemma count_upd_in:
  "i < length xs \<Longrightarrow> \<not> P (xs ! i) \<Longrightarrow> P y \<Longrightarrow>
   length (filter P (xs[i := y])) = Suc (length (filter P xs))"
  using filter_update_count [of i xs P y] by simp

lemma count_upd_out:
  "i < length xs \<Longrightarrow> P (xs ! i) \<Longrightarrow> \<not> P y \<Longrightarrow>
   length (filter P (xs[i := y])) = length (filter P xs) - 1"
  using filter_update_count [of i xs P y] by simp

lemma step_length:
  "step G now i s = Some s' \<Longrightarrow> i < length (goroutines s) \<and> length (goroutines s') = length (goroutines s)"
  by (auto simp: step_def Let_def split: if_splits pc.splits sum.splits)

lemma step_cases [consumes 1, case_names RLock ReadExpire ReadStr ReadKey RUnlock Check_due Check_current Gen_failed Gen_issued Lock LockWait WriteExpire WriteStr Unlock LogRefreshed Attach Return]:
  assumes "step G now i s = Some s'"
  obtains
    (RLock) g where
      "i < length (goroutines s)"
      "g = goroutines s ! i"
      "at g = RLock"
      "\<not> writer s"
      "s' = s\<lparr>readers := readers s + 1, goroutines := (goroutines s)[i := g\<lparr>at := ReadExpire\<rparr>]\<rparr>"
  | (ReadExpire) g where
      "i < length (goroutines s)"
      "g = goroutines s ! i"
      "at g = ReadExpire"
      "s' = s\<lparr>goroutines := (goroutines s)[i := g\<lparr>var_exp := tokenExpire (cred s), at := ReadStr\<rparr>]\<rparr>"
  | (ReadStr) g where
      "i < length (goroutines s)"
      "g = goroutines s ! i"
      "at g = ReadStr"
      "s' = s\<lparr>goroutines := (goroutines s)[i := g\<lparr>var_tok := tokenStr (cred s), at := ReadKey\<rparr>]\<rparr>"
  | (ReadKey) g where
      "i < length (goroutines s)"
      "g = goroutines s ! i"
      "at g = ReadKey"
      "s' = s\<lparr>goroutines := (goroutines s)[i := g\<lparr>var_sharedKey := sharedKey (cred s), at := RUnlock\<rparr>]\<rparr>"
  | (RUnlock) g where
      "i < length (goroutines s)"
      "g = goroutines s ! i"
      "at g = RUnlock"
      "readers s \<noteq> 0"
      "s' = s\<lparr>readers := readers s - 1, goroutines := (goroutines s)[i := g\<lparr>at := Check\<rparr>]\<rparr>"
  | (Check_due) g where
      "i < length (goroutines s)"
      "g = goroutines s ! i"
      "at g = Check"
      "var_exp g - 300 <s now i"
      "s' = s\<lparr>goroutines := (goroutines s)[i := g\<lparr>var_meta := Map.empty, at := Gen\<rparr>]\<rparr>"
  | (Check_current) g where
      "i < length (goroutines s)"
      "g = goroutines s ! i"
      "at g = Check"
      "\<not> var_exp g - 300 <s now i"
      "s' = s\<lparr>goroutines := (goroutines s)[i := g\<lparr>var_meta := Map.empty, at := Attach\<rparr>]\<rparr>"
  | (Gen_failed) g e where
      "i < length (goroutines s)"
      "g = goroutines s ! i"
      "at g = Gen"
      "G i ''ssgrpcClient'' time_Hour (var_sharedKey g) = Inl e"
      "s' = s\<lparr>trace := trace s @ [CallGenUserToken ''ssgrpcClient'' time_Hour (var_sharedKey g), LogErr ''gen token error:'' e], goroutines := (goroutines s)[i := g\<lparr>returned := Some (var_meta g, Some e), at := Done\<rparr>]\<rparr>"
  | (Gen_issued) g u t where
      "i < length (goroutines s)"
      "g = goroutines s ! i"
      "at g = Gen"
      "G i ''ssgrpcClient'' time_Hour (var_sharedKey g) = Inr (u, t)"
      "s' = s\<lparr>trace := trace s @ [CallGenUserToken ''ssgrpcClient'' time_Hour (var_sharedKey g)], goroutines := (goroutines s)[i := g\<lparr>var_exp := EXP u, var_tok := t, at := Lock\<rparr>]\<rparr>"
  | (Lock) g where
      "i < length (goroutines s)"
      "g = goroutines s ! i"
      "at g = Lock"
      "\<not> writer s"
      "s' = s\<lparr>writer := True, goroutines := (goroutines s)[i := g\<lparr>at := LockWait\<rparr>]\<rparr>"
  | (LockWait) g where
      "i < length (goroutines s)"
      "g = goroutines s ! i"
      "at g = LockWait"
      "readers s = 0"
      "s' = s\<lparr>goroutines := (goroutines s)[i := g\<lparr>at := WriteExpire\<rparr>]\<rparr>"
  | (WriteExpire) g where
      "i < length (goroutines s)"
      "g = goroutines s ! i"
      "at g = WriteExpire"
      "s' = s\<lparr>cred := (cred s)\<lparr>tokenExpire := var_exp g\<rparr>, goroutines := (goroutines s)[i := g\<lparr>at := WriteStr\<rparr>]\<rparr>"
  | (WriteStr) g where
      "i < length (goroutines s)"
      "g = goroutines s ! i"
      "at g = WriteStr"
      "s' = s\<lparr>cred := (cred s)\<lparr>tokenStr := var_tok g\<rparr>, goroutines := (goroutines s)[i := g\<lparr>at := Unlock\<rparr>]\<rparr>"
  | (Unlock) g where
      "i < length (goroutines s)"
      "g = goroutines s ! i"
      "at g = Unlock"
      "writer s"
      "s' = s\<lparr>writer := False, goroutines := (goroutines s)[i := g\<lparr>at := LogRefreshed\<rparr>]\<rparr>"
  | (LogRefreshed) g where
      "i < length (goroutines s)"
      "g = goroutines s ! i"
      "at g = LogRefreshed"
      "s' = s\<lparr>trace := trace s @ [LogInfo ''token refreshed''], goroutines := (goroutines s)[i := g\<lparr>at := Attach\<rparr>]\<rparr>"
  | (Attach) g where
      "i < length (goroutines s)"
      "g = goroutines s ! i"
      "at g = Attach"
      "s' = s\<lparr>goroutines := (goroutines s)[i := g\<lparr>var_meta := (var_meta g)(''authorization'' \<mapsto> ''Bearer '' @ var_tok g), at := Return\<rparr>]\<rparr>"
  | (Return) g where
      "i < length (goroutines s)"
      "g = goroutines s ! i"
      "at g = Return"
      "s' = s\<lparr>goroutines := (goroutines s)[i := g\<lparr>returned := Some (var_meta g, None), at := Done\<rparr>]\<rparr>"
proof -
  from assms have i: "i < length (goroutines s)"
    by (simp add: step_def split: if_splits)
  show ?thesis
  proof (cases "at (goroutines s ! i)")
    case Check
    show ?thesis
    proof (cases "var_exp (goroutines s ! i) - 300 <s now i")
      case True
      with assms i Check show ?thesis
        by (intro that(6) [OF i refl]) (simp_all add: step_def)
    next
      case False
      with assms i Check show ?thesis
        by (intro that(7) [OF i refl]) (simp_all add: step_def)
    qed
  next
    case Gen
    show ?thesis
    proof (cases "G i ''ssgrpcClient'' time_Hour (var_sharedKey (goroutines s ! i))")
      case (Inl e)
      with assms i Gen show ?thesis
        by (intro that(8) [OF i refl, where e = e]) (simp_all add: step_def Let_def)
    next
      case (Inr r)
      obtain u t where "r = (u, t)" by (cases r)
      with Inr assms i Gen show ?thesis
        by (intro that(9) [OF i refl, where u = u and t = t]) (simp_all add: step_def Let_def)
    qed
  next
    case RLock
    with assms i show ?thesis
      by (intro that(1) [OF i refl]) (simp_all add: step_def Let_def split: if_splits)
  next
    case ReadExpire
    with assms i show ?thesis
      by (intro that(2) [OF i refl]) (simp_all add: step_def Let_def)
  next
    case ReadStr
    with assms i show ?thesis
      by (intro that(3) [OF i refl]) (simp_all add: step_def Let_def)
  next
    case ReadKey
    with assms i show ?thesis
      by (intro that(4) [OF i refl]) (simp_all add: step_def Let_def)
  next
    case RUnlock
    with assms i show ?thesis
      by (intro that(5) [OF i refl]) (simp_all add: step_def Let_def split: if_splits)
  next
    case Lock
    with assms i show ?thesis
      by (intro that(10) [OF i refl]) (simp_all add: step_def Let_def split: if_splits)
  next
    case LockWait
    with assms i show ?thesis
      by (intro that(11) [OF i refl]) (simp_all add: step_def Let_def split: if_splits)
  next
    case WriteExpire
    with assms i show ?thesis
      by (intro that(12) [OF i refl]) (simp_all add: step_def Let_def)
  next
    case WriteStr
    with assms i show ?thesis
      by (intro that(13) [OF i refl]) (simp_all add: step_def Let_def)
  next
    case Unlock
    with assms i show ?thesis
      by (intro that(14) [OF i refl]) (simp_all add: step_def Let_def split: if_splits)
  next
    case LogRefreshed
    with assms i show ?thesis
      by (intro that(15) [OF i refl]) (simp_all add: step_def Let_def)
  next
    case Attach
    with assms i show ?thesis
      by (intro that(16) [OF i refl]) (simp_all add: step_def Let_def)
  next
    case Return
    with assms i show ?thesis
      by (intro that(17) [OF i refl]) (simp_all add: step_def Let_def)
  next
    case Done
    with assms i show ?thesis
      by (simp add: step_def Let_def)
  qed
qed

lemma in_set_upd:
  "x \<in> set (xs[i := y]) \<Longrightarrow> x = y \<or> x \<in> set xs"
  using set_update_subset_insert [of xs i y] by auto

lemma in_set_upd_back:
  "x \<in> set xs \<Longrightarrow> i < length xs \<Longrightarrow> x = xs ! i \<or> x \<in> set (xs[i := y])"
  by (metis in_set_conv_nth length_list_update nth_list_update_neq)

lemma upd_mem: "i < length xs \<Longrightarrow> y \<in> set (xs[i := y])"
  by (simp add: set_update_memI)

lemma count_zero_iff: "length (filter P xs) = 0 \<longleftrightarrow> (\<forall>x \<in> set xs. \<not> P x)"
  by (simp add: filter_empty_conv)

lemma two_count:
  "i < j \<Longrightarrow> j < length xs \<Longrightarrow> P (xs ! i) \<Longrightarrow> P (xs ! j) \<Longrightarrow> 2 \<le> length (filter P xs)"
proof (induction xs arbitrary: i j)
  case Nil
  then show ?case by simp
next
  case (Cons x xs)
  from Cons.prems obtain k where j: "j = Suc k" by (cases j) auto
  show ?case
  proof (cases i)
    case 0
    with Cons.prems j have "P x" and "k < length xs" and "P (xs ! k)" by simp_all
    then show ?thesis using filter_count_pos [of k xs P] by (simp add: Suc_le_eq)
  next
    case (Suc l)
    with Cons.prems j have "l < k" "k < length xs" "P (xs ! l)" "P (xs ! k)" by simp_all
    from Cons.IH [OF this] show ?thesis by simp
  qed
qed

lemma sole_holder:
  assumes "i < length xs" and "P (xs ! i)" and "length (filter P xs) \<le> 1"
    and "x \<in> set (xs[i := y])"
  shows "x = y \<or> \<not> P x"
proof (rule ccontr)
  assume neg: "\<not> (x = y \<or> \<not> P x)"
  from assms(4) obtain j where j: "j < length xs" "xs[i := y] ! j = x"
    by (auto simp: in_set_conv_nth)
  from neg j assms(1) have ne: "j \<noteq> i" by auto
  with j have "xs ! j = x" by simp
  with neg have "P (xs ! j)" by simp
  with ne j(1) assms(1,2) have "2 \<le> length (filter P xs)"
    using two_count [of i j xs P] two_count [of j i xs P] by (cases "i < j") auto
  with assms(3) show False by simp
qed

lemma count_mono:
  "(\<And>x. P x \<Longrightarrow> Q x) \<Longrightarrow> length (filter P xs) \<le> length (filter Q xs)"
  by (induction xs) auto

lemma in_write_has_called_Lock: "in_write p \<Longrightarrow> has_called_Lock p"
  by (cases p) simp_all

lemma lock_inv_readers:
  assumes "step G now i s = Some s'" and "lock_inv s"
  shows "readers s' = length (filter (\<lambda>g. in_read (at g)) (goroutines s'))"
  using assms
  by (cases rule: step_cases)
    (simp_all add: lock_inv_def count_upd_same count_upd_in count_upd_out)

lemma lock_inv_writer:
  assumes "step G now i s = Some s'" and "lock_inv s"
  shows "length (filter (\<lambda>g. has_called_Lock (at g)) (goroutines s')) = (if writer s' then 1 else 0)"
  using assms
  by (cases rule: step_cases)
    (simp_all add: lock_inv_def count_upd_same count_upd_in count_upd_out)


lemma no_writer_no_in_write:
  assumes "lock_inv s" and "\<not> writer s" and "g \<in> set (goroutines s)"
  shows "\<not> in_write (at g)"
proof -
  from assms(1,2) have "length (filter (\<lambda>g. has_called_Lock (at g)) (goroutines s)) = 0"
    by (simp add: lock_inv_def)
  with assms(3) have "\<not> has_called_Lock (at g)"
    by (auto simp: filter_empty_conv)
  then show ?thesis using in_write_has_called_Lock by blast
qed

lemma lock_inv_excl:
  assumes "step G now i s = Some s'" and "lock_inv s"
    and "g' \<in> set (goroutines s')" and "in_write (at g')"
  shows "readers s' = 0"
proof -
  have old: "readers s = 0" if "x \<in> set (goroutines s)" "in_write (at x)" for x
    using that assms(2) by (auto simp: lock_inv_def)
  have cur: "readers s = 0" if "i < length (goroutines s)" "in_write (at (goroutines s ! i))"
    using that old [of "goroutines s ! i"] by simp
  from assms(1) show ?thesis
  proof (cases rule: step_cases)
    case (RLock g)
    from assms(3) RLock have "g' = g\<lparr>at := ReadExpire\<rparr> \<or> g' \<in> set (goroutines s)"
      by (auto dest: in_set_upd)
    with assms(4) no_writer_no_in_write [OF assms(2) RLock(4)] show ?thesis by auto
  next
    case (RUnlock g)
    from assms(3) RUnlock have "g' = g\<lparr>at := Check\<rparr> \<or> g' \<in> set (goroutines s)"
      by (auto dest: in_set_upd)
    with assms(4) old RUnlock show ?thesis by auto
  next
    case (LockWait g)
    then show ?thesis by simp
  qed (use assms(3,4) old cur in \<open>auto dest!: in_set_upd\<close>)
qed

lemma lock_inv_step:
  assumes "step G now i s = Some s'" and "lock_inv s"
  shows "lock_inv s'"
  unfolding lock_inv_def
  using lock_inv_readers [OF assms] lock_inv_writer [OF assms] lock_inv_excl [OF assms]
  by blast

lemma issued_mem:
  assumes "i < n" and "G i ''ssgrpcClient'' time_Hour (sharedKey c) = Inr (u, t)"
  shows "(t, EXP u) \<in> set (whole_pairs G c n)"
  using assms by (force simp: whole_pairs_def issued_pairs_def)

lemma reader_excludes_writer:
  assumes "lock_inv s" and "i < length (goroutines s)" and "in_read (at (goroutines s ! i))"
    and "x \<in> set (goroutines s)"
  shows "\<not> in_write (at x)"
proof
  assume "in_write (at x)"
  with assms(1,4) have "readers s = 0" by (auto simp: lock_inv_def)
  moreover from assms(2,3) have "0 < length (filter (\<lambda>g. in_read (at g)) (goroutines s))"
    by (rule filter_count_pos)
  ultimately show False using assms(1) by (simp add: lock_inv_def)
qed

lemma writer_excludes_reader:
  assumes "lock_inv s" and "i < length (goroutines s)" and "in_write (at (goroutines s ! i))"
    and "x \<in> set (goroutines s)"
  shows "\<not> in_read (at x)"
proof -
  from assms(2,3) have "\<exists>g \<in> set (goroutines s). in_write (at g)" by (auto intro: nth_mem)
  with assms(1) have "filter (\<lambda>g. in_read (at g)) (goroutines s) = []"
    by (auto simp: lock_inv_def)
  with assms(4) show ?thesis by (auto simp: filter_empty_conv)
qed

lemma writer_is_sole:
  assumes "lock_inv s" and "i < length (goroutines s)" and "has_called_Lock (at (goroutines s ! i))"
    and "x \<in> set ((goroutines s)[i := y])"
  shows "x = y \<or> \<not> has_called_Lock (at x)"
proof -
  from assms(1) have "length (filter (\<lambda>g. has_called_Lock (at g)) (goroutines s)) \<le> 1"
    by (simp add: lock_inv_def)
  from sole_holder [where P = "\<lambda>g. has_called_Lock (at g)", OF assms(2,3) this assms(4)]
  show ?thesis .
qed



lemma upd_all:
  assumes "x \<in> set (xs[i := y])" and "Q y" and "\<And>z. z \<in> set xs \<Longrightarrow> Q z"
  shows "Q x"
  using assms by (auto dest: in_set_upd)

lemma sole_holder_eq:
  assumes "i < length xs" and "P (xs ! i)" and "length (filter P xs) \<le> 1"
    and "x \<in> set xs" and "P x"
  shows "x = xs ! i"
  using sole_holder [of i xs P x "xs ! i"] assms by simp

lemma data_inv_local:
  assumes st: "step G now i s = Some s'" and li: "lock_inv s" and di: "data_inv G c n s"
    and x: "x \<in> set (goroutines s')"
  shows "goroutine_inv G c n (cred s') x"
proof -
  from di have len: "length (goroutines s) = n" and key: "sharedKey (cred s) = sharedKey c"
    by (simp_all add: data_inv_def)
  have old: "goroutine_inv G c n (cred s) y" if "y \<in> set (goroutines s)" for y
    using di that by (simp add: data_inv_def)
  have me: "goroutine_inv G c n (cred s) (goroutines s ! i)" if "i < length (goroutines s)"
    using that by (simp add: old)
  have whole: "(tokenStr (cred s), tokenExpire (cred s)) \<in> set (whole_pairs G c n)"
    if "\<forall>g \<in> set (goroutines s). at g \<noteq> WriteStr"
    using di that by (simp add: data_inv_def)
  have frame: "goroutine_inv G c n (cred s') x"
    if "goroutines s' = (goroutines s)[i := g']"
      and "tokenExpire (cred s') = tokenExpire (cred s)"
      and "goroutine_inv G c n (cred s) g'" for g'
  proof -
    from x that(1) have "x = g' \<or> x \<in> set (goroutines s)" by (auto dest: in_set_upd)
    with that(3) old have "goroutine_inv G c n (cred s) x" by blast
    with that(2) show ?thesis by (simp add: goroutine_inv_def)
  qed
  from st show ?thesis
  proof (cases rule: step_cases)
    case (ReadStr g)
    have "at y \<noteq> WriteStr" if "y \<in> set (goroutines s)" for y
      using reader_excludes_writer [OF li ReadStr(1) _ that] ReadStr by auto
    then have "(tokenStr (cred s), tokenExpire (cred s)) \<in> set (whole_pairs G c n)"
      using whole by blast
    with me ReadStr show ?thesis
      by (intro frame [of "g\<lparr>var_tok := tokenStr (cred s), at := ReadKey\<rparr>"])
        (simp_all add: goroutine_inv_def observed_def)
  next
    case (ReadKey g)
    with me key show ?thesis
      by (intro frame [of "g\<lparr>var_sharedKey := sharedKey (cred s), at := RUnlock\<rparr>"])
        (simp_all add: goroutine_inv_def observed_def)
  next
    case (Gen_issued g u t)
    with me have "G i ''ssgrpcClient'' time_Hour (sharedKey c) = Inr (u, t)"
      by (simp add: goroutine_inv_def)
    moreover from Gen_issued len have "i < n" by simp
    ultimately have "(t, EXP u) \<in> set (whole_pairs G c n)" by (intro issued_mem)
    with me Gen_issued show ?thesis
      by (intro frame [of "g\<lparr>var_exp := EXP u, var_tok := t, at := Lock\<rparr>"])
        (simp_all add: goroutine_inv_def observed_def)
  next
    case (WriteExpire g)
    let ?cr = "(cred s)\<lparr>tokenExpire := var_exp g\<rparr>"
    from me WriteExpire have new: "goroutine_inv G c n ?cr (g\<lparr>at := WriteStr\<rparr>)"
      by (simp add: goroutine_inv_def observed_def)
    have others: "goroutine_inv G c n ?cr z" if z: "z \<in> set (goroutines s)" for z
    proof -
      have "\<not> in_read (at z)"
        using writer_excludes_reader [OF li WriteExpire(1) _ z] WriteExpire by simp
      then have "at z \<noteq> ReadStr" by auto
      moreover have "at z \<noteq> WriteStr"
      proof
        assume "at z = WriteStr"
        moreover from li have "length (filter (\<lambda>g. has_called_Lock (at g)) (goroutines s)) \<le> 1"
          by (simp add: lock_inv_def)
        ultimately have "z = goroutines s ! i"
          using sole_holder_eq [where P = "\<lambda>g. has_called_Lock (at g)", OF WriteExpire(1) _ _ z]
            WriteExpire by simp
        with \<open>at z = WriteStr\<close> WriteExpire show False by simp
      qed
      ultimately show ?thesis using old [OF z] by (simp add: goroutine_inv_def)
    qed
    from x have "x \<in> set ((goroutines s)[i := g\<lparr>at := WriteStr\<rparr>])"
      by (simp add: WriteExpire)
    then have "goroutine_inv G c n ?cr x"
      using new others by (rule upd_all)
    then show ?thesis by (simp add: WriteExpire)
  next
    case (RLock g)
    with me show ?thesis
      by (intro frame [of "g\<lparr>at := ReadExpire\<rparr>"])
        (simp_all add: goroutine_inv_def observed_def)
  next
    case (ReadExpire g)
    with me show ?thesis
      by (intro frame [of "g\<lparr>var_exp := tokenExpire (cred s), at := ReadStr\<rparr>"])
        (simp_all add: goroutine_inv_def observed_def)
  next
    case (RUnlock g)
    with me show ?thesis
      by (intro frame [of "g\<lparr>at := Check\<rparr>"])
        (simp_all add: goroutine_inv_def observed_def)
  next
    case (Check_due g)
    with me show ?thesis
      by (intro frame [of "g\<lparr>var_meta := Map.empty, at := Gen\<rparr>"])
        (simp_all add: goroutine_inv_def observed_def)
  next
    case (Check_current g)
    with me show ?thesis
      by (intro frame [of "g\<lparr>var_meta := Map.empty, at := Attach\<rparr>"])
        (simp_all add: goroutine_inv_def observed_def)
  next
    case (Gen_failed g e)
    with me show ?thesis
      by (intro frame [of "g\<lparr>returned := Some (var_meta g, Some e), at := Done\<rparr>"])
        (simp_all add: goroutine_inv_def observed_def)
  next
    case (Lock g)
    with me show ?thesis
      by (intro frame [of "g\<lparr>at := LockWait\<rparr>"])
        (simp_all add: goroutine_inv_def observed_def)
  next
    case (LockWait g)
    with me show ?thesis
      by (intro frame [of "g\<lparr>at := WriteExpire\<rparr>"])
        (simp_all add: goroutine_inv_def observed_def)
  next
    case (WriteStr g)
    with me show ?thesis
      by (intro frame [of "g\<lparr>at := Unlock\<rparr>"])
        (simp_all add: goroutine_inv_def observed_def)
  next
    case (Unlock g)
    with me show ?thesis
      by (intro frame [of "g\<lparr>at := LogRefreshed\<rparr>"])
        (simp_all add: goroutine_inv_def observed_def)
  next
    case (LogRefreshed g)
    with me show ?thesis
      by (intro frame [of "g\<lparr>at := Attach\<rparr>"])
        (simp_all add: goroutine_inv_def observed_def)
  next
    case (Attach g)
    with me show ?thesis
      by (intro frame [of "g\<lparr>var_meta := (var_meta g)(''authorization'' \<mapsto> ''Bearer '' @ var_tok g), at := Return\<rparr>"])
        (simp_all add: goroutine_inv_def observed_def)
  next
    case (Return g)
    with me show ?thesis
      by (intro frame [of "g\<lparr>returned := Some (var_meta g, None), at := Done\<rparr>"])
        (simp_all add: goroutine_inv_def observed_def)
  qed
qed

lemma data_inv_frame:
  assumes st: "step G now i s = Some s'" and di: "data_inv G c n s"
  shows "length (goroutines s') = n \<and> sharedKey (cred s') = sharedKey c"
  using st di by (cases rule: step_cases) (simp_all add: data_inv_def)

lemma data_inv_whole:
  assumes st: "step G now i s = Some s'" and di: "data_inv G c n s"
    and none: "\<forall>g \<in> set (goroutines s'). at g \<noteq> WriteStr"
  shows "(tokenStr (cred s'), tokenExpire (cred s')) \<in> set (whole_pairs G c n)"
proof -
  have old: "goroutine_inv G c n (cred s) y" if "y \<in> set (goroutines s)" for y
    using di that by (simp add: data_inv_def)
  have whole: "(tokenStr (cred s), tokenExpire (cred s)) \<in> set (whole_pairs G c n)"
    if "\<forall>g \<in> set (goroutines s). at g \<noteq> WriteStr"
    using di that by (simp add: data_inv_def)
  have keep: "(tokenStr (cred s'), tokenExpire (cred s')) \<in> set (whole_pairs G c n)"
    if upd: "goroutines s' = (goroutines s)[i := g']" and i: "i < length (goroutines s)"
      and me: "at (goroutines s ! i) \<noteq> WriteStr" and same: "cred s' = cred s" for g'
  proof -
    have "at y \<noteq> WriteStr" if "y \<in> set (goroutines s)" for y
      using in_set_upd_back [OF that i, of g'] none upd me by auto
    with whole same show ?thesis by simp
  qed
  from st show ?thesis
  proof (cases rule: step_cases)
    case (WriteExpire g)
    then have "g\<lparr>at := WriteStr\<rparr> \<in> set (goroutines s')" by (simp add: upd_mem)
    with none show ?thesis by auto
  next
    case (WriteStr g)
    then have "g \<in> set (goroutines s)" by simp
    from old [OF this] WriteStr show ?thesis
      by (simp add: goroutine_inv_def observed_def)
  next
    case (RLock g)
    then show ?thesis
      by (intro keep [of "g\<lparr>at := ReadExpire\<rparr>"]) simp_all
  next
    case (ReadExpire g)
    then show ?thesis
      by (intro keep [of "g\<lparr>var_exp := tokenExpire (cred s), at := ReadStr\<rparr>"]) simp_all
  next
    case (ReadStr g)
    then show ?thesis
      by (intro keep [of "g\<lparr>var_tok := tokenStr (cred s), at := ReadKey\<rparr>"]) simp_all
  next
    case (ReadKey g)
    then show ?thesis
      by (intro keep [of "g\<lparr>var_sharedKey := sharedKey (cred s), at := RUnlock\<rparr>"]) simp_all
  next
    case (RUnlock g)
    then show ?thesis
      by (intro keep [of "g\<lparr>at := Check\<rparr>"]) simp_all
  next
    case (Check_due g)
    then show ?thesis
      by (intro keep [of "g\<lparr>var_meta := Map.empty, at := Gen\<rparr>"]) simp_all
  next
    case (Check_current g)
    then show ?thesis
      by (intro keep [of "g\<lparr>var_meta := Map.empty, at := Attach\<rparr>"]) simp_all
  next
    case (Gen_failed g e)
    then show ?thesis
      by (intro keep [of "g\<lparr>returned := Some (var_meta g, Some e), at := Done\<rparr>"]) simp_all
  next
    case (Gen_issued g u t)
    then show ?thesis
      by (intro keep [of "g\<lparr>var_exp := EXP u, var_tok := t, at := Lock\<rparr>"]) simp_all
  next
    case (Lock g)
    then show ?thesis
      by (intro keep [of "g\<lparr>at := LockWait\<rparr>"]) simp_all
  next
    case (LockWait g)
    then show ?thesis
      by (intro keep [of "g\<lparr>at := WriteExpire\<rparr>"]) simp_all
  next
    case (Unlock g)
    then show ?thesis
      by (intro keep [of "g\<lparr>at := LogRefreshed\<rparr>"]) simp_all
  next
    case (LogRefreshed g)
    then show ?thesis
      by (intro keep [of "g\<lparr>at := Attach\<rparr>"]) simp_all
  next
    case (Attach g)
    then show ?thesis
      by (intro keep [of "g\<lparr>var_meta := (var_meta g)(''authorization'' \<mapsto> ''Bearer '' @ var_tok g), at := Return\<rparr>"]) simp_all
  next
    case (Return g)
    then show ?thesis
      by (intro keep [of "g\<lparr>returned := Some (var_meta g, None), at := Done\<rparr>"]) simp_all
  qed
qed

lemma data_inv_step:
  assumes "step G now i s = Some s'" and "lock_inv s" and "data_inv G c n s"
  shows "data_inv G c n s'"
  unfolding data_inv_def
  using data_inv_frame [OF assms(1,3)] data_inv_whole [OF assms(1,3)]
    data_inv_local [OF assms]
  by blast

lemma meta_inv_step:
  assumes st: "step G now i s = Some s'" and old: "\<And>y. y \<in> set (goroutines s) \<Longrightarrow> meta_inv y"
    and x: "x \<in> set (goroutines s')"
  shows "meta_inv x"
proof -
  have new: "meta_inv x" if "goroutines s' = (goroutines s)[i := g']" "meta_inv g'" for g'
    using x old that by (auto dest: in_set_upd)
  have me: "meta_inv (goroutines s ! i)" if "i < length (goroutines s)"
    using that by (simp add: old)
  from st show ?thesis
  proof (cases rule: step_cases)
    case (RLock g)
    with me show ?thesis
      by (intro new [of "g\<lparr>at := ReadExpire\<rparr>"])
        (simp_all add: meta_inv_def returns_whole_def)
  next
    case (ReadExpire g)
    with me show ?thesis
      by (intro new [of "g\<lparr>var_exp := tokenExpire (cred s), at := ReadStr\<rparr>"])
        (simp_all add: meta_inv_def returns_whole_def)
  next
    case (ReadStr g)
    with me show ?thesis
      by (intro new [of "g\<lparr>var_tok := tokenStr (cred s), at := ReadKey\<rparr>"])
        (simp_all add: meta_inv_def returns_whole_def)
  next
    case (ReadKey g)
    with me show ?thesis
      by (intro new [of "g\<lparr>var_sharedKey := sharedKey (cred s), at := RUnlock\<rparr>"])
        (simp_all add: meta_inv_def returns_whole_def)
  next
    case (RUnlock g)
    with me show ?thesis
      by (intro new [of "g\<lparr>at := Check\<rparr>"])
        (simp_all add: meta_inv_def returns_whole_def)
  next
    case (Check_due g)
    with me show ?thesis
      by (intro new [of "g\<lparr>var_meta := Map.empty, at := Gen\<rparr>"])
        (simp_all add: meta_inv_def returns_whole_def)
  next
    case (Check_current g)
    with me show ?thesis
      by (intro new [of "g\<lparr>var_meta := Map.empty, at := Attach\<rparr>"])
        (simp_all add: meta_inv_def returns_whole_def)
  next
    case (Gen_failed g e)
    with me show ?thesis
      by (intro new [of "g\<lparr>returned := Some (var_meta g, Some e), at := Done\<rparr>"])
        (simp_all add: meta_inv_def returns_whole_def)
  next
    case (Gen_issued g u t)
    with me show ?thesis
      by (intro new [of "g\<lparr>var_exp := EXP u, var_tok := t, at := Lock\<rparr>"])
        (simp_all add: meta_inv_def returns_whole_def)
  next
    case (Lock g)
    with me show ?thesis
      by (intro new [of "g\<lparr>at := LockWait\<rparr>"])
        (simp_all add: meta_inv_def returns_whole_def)
  next
    case (LockWait g)
    with me show ?thesis
      by (intro new [of "g\<lparr>at := WriteExpire\<rparr>"])
        (simp_all add: meta_inv_def returns_whole_def)
  next
    case (WriteExpire g)
    with me show ?thesis
      by (intro new [of "g\<lparr>at := WriteStr\<rparr>"])
        (simp_all add: meta_inv_def returns_whole_def)
  next
    case (WriteStr g)
    with me show ?thesis
      by (intro new [of "g\<lparr>at := Unlock\<rparr>"])
        (simp_all add: meta_inv_def returns_whole_def)
  next
    case (Unlock g)
    with me show ?thesis
      by (intro new [of "g\<lparr>at := LogRefreshed\<rparr>"])
        (simp_all add: meta_inv_def returns_whole_def)
  next
    case (LogRefreshed g)
    with me show ?thesis
      by (intro new [of "g\<lparr>at := Attach\<rparr>"])
        (simp_all add: meta_inv_def returns_whole_def)
  next
    case (Attach g)
    with me show ?thesis
      by (intro new [of "g\<lparr>var_meta := (var_meta g)(''authorization'' \<mapsto> ''Bearer '' @ var_tok g), at := Return\<rparr>"])
        (simp_all add: meta_inv_def returns_whole_def)
  next
    case (Return g)
    with me show ?thesis
      by (intro new [of "g\<lparr>returned := Some (var_meta g, None), at := Done\<rparr>"])
        (simp_all add: meta_inv_def returns_whole_def)
  qed
qed

lemma sum_list_upd:
  "i < length xs \<Longrightarrow>
   sum_list (map f (xs[i := y])) + f (xs ! i) = sum_list (map f xs) + (f y :: nat)"
proof (induction xs arbitrary: i)
  case Nil
  then show ?case by simp
next
  case (Cons x xs)
  show ?case
  proof (cases i)
    case 0
    then show ?thesis by simp
  next
    case (Suc k)
    with Cons.prems have "k < length xs" by simp
    from Cons.IH [OF this] Suc show ?thesis by simp
  qed
qed

lemma step_fewer_left:
  assumes "step G now i s = Some s'"
  shows "Suc (statements_left s') \<le> statements_left s"
proof -
  have less: "Suc (statements_left s') \<le> statements_left s"
    if "goroutines s' = (goroutines s)[i := g']" "i < length (goroutines s)"
      "rank (at g') < rank (at (goroutines s ! i))" for g'
    using sum_list_upd [of i "goroutines s" "\<lambda>g. rank (at g)" g'] that
    by (simp add: statements_left_def)
  from assms show ?thesis
    by (cases rule: step_cases) (rule less, simp, simp, simp)+
qed

lemma step_None_iff:
  assumes "i < length (goroutines s)"
  shows "step G now i s = None \<longleftrightarrow>
     (case at (goroutines s ! i) of
        RLock \<Rightarrow> writer s
      | RUnlock \<Rightarrow> readers s = 0
      | Lock \<Rightarrow> writer s
      | LockWait \<Rightarrow> readers s \<noteq> 0
      | Unlock \<Rightarrow> \<not> writer s
      | Done \<Rightarrow> True
      | _ \<Rightarrow> False)"
  using assms by (simp add: step_def Let_def split: pc.splits sum.splits prod.splits)

lemma can_go_onI:
  "i < length (goroutines s) \<Longrightarrow> step G now i s \<noteq> None \<Longrightarrow> can_go_on G now s"
  by (auto simp: can_go_on_def list_ex_iff)

lemma reader_can_go_on:
  assumes li: "lock_inv s" and k: "k < length (goroutines s)" and r: "in_read (at (goroutines s ! k))"
  shows "step G now k s \<noteq> None"
proof -
  from k r have "0 < length (filter (\<lambda>g. in_read (at g)) (goroutines s))"
    by (rule filter_count_pos)
  with li have "readers s \<noteq> 0" by (simp add: lock_inv_def)
  with r show ?thesis
    by (cases "at (goroutines s ! k)") (simp_all add: step_None_iff [OF k])
qed

lemma progress:
  assumes li: "lock_inv s" and nr: "\<not> all_returned s"
  shows "can_go_on G now s"
proof -
  from li have rd: "readers s = length (filter (\<lambda>g. in_read (at g)) (goroutines s))"
    unfolding lock_inv_def by blast
  from li have cnt: "length (filter (\<lambda>g. has_called_Lock (at g)) (goroutines s))
      = (if writer s then 1 else 0)"
    unfolding lock_inv_def by blast
  show ?thesis
  proof (cases "writer s")
    case True
    with cnt have "0 < length (filter (\<lambda>g. has_called_Lock (at g)) (goroutines s))"
      by simp
    from filter_count_ex [OF this]
    obtain j where j: "j < length (goroutines s)" "has_called_Lock (at (goroutines s ! j))"
      by blast
    show ?thesis
    proof (cases "readers s = 0")
      case free: True
      have "step G now j s \<noteq> None"
      proof (cases "at (goroutines s ! j)")
        case LockWait
        with free show ?thesis by (simp add: step_None_iff [OF j(1)])
      next
        case WriteExpire
        then show ?thesis by (simp add: step_None_iff [OF j(1)])
      next
        case WriteStr
        then show ?thesis by (simp add: step_None_iff [OF j(1)])
      next
        case Unlock
        with True show ?thesis by (simp add: step_None_iff [OF j(1)])
      qed (use j(2) in simp_all)
      with j(1) show ?thesis by (rule can_go_onI)
    next
      case False
      with rd have "0 < length (filter (\<lambda>g. in_read (at g)) (goroutines s))"
        by linarith
      from filter_count_ex [OF this]
      obtain k where k: "k < length (goroutines s)" "in_read (at (goroutines s ! k))"
        by blast
      from reader_can_go_on [OF li k] k(1) show ?thesis by (intro can_go_onI)
    qed
  next
    case False
    from nr obtain g where "g \<in> set (goroutines s)" "at g \<noteq> Done"
      unfolding all_returned_def list_all_iff by blast
    then obtain j where j: "j < length (goroutines s)" "at (goroutines s ! j) \<noteq> Done"
      unfolding in_set_conv_nth by blast
    from cnt False have "filter (\<lambda>g. has_called_Lock (at g)) (goroutines s) = []"
      by simp
    with j(1) have nl: "\<not> has_called_Lock (at (goroutines s ! j))"
      unfolding filter_empty_conv by simp
    have "step G now j s \<noteq> None"
    proof (cases "in_read (at (goroutines s ! j))")
      case True
      with li j(1) show ?thesis by (intro reader_can_go_on)
    next
      case nread: False
      show ?thesis
      proof (cases "at (goroutines s ! j)")
        case RLock
        with False show ?thesis by (simp add: step_None_iff [OF j(1)])
      next
        case Check
        then show ?thesis by (simp add: step_None_iff [OF j(1)])
      next
        case Gen
        then show ?thesis by (simp add: step_None_iff [OF j(1)])
      next
        case Lock
        with False show ?thesis by (simp add: step_None_iff [OF j(1)])
      next
        case LogRefreshed
        then show ?thesis by (simp add: step_None_iff [OF j(1)])
      next
        case Attach
        then show ?thesis by (simp add: step_None_iff [OF j(1)])
      next
        case Return
        then show ?thesis by (simp add: step_None_iff [OF j(1)])
      qed (use nread nl j(2) in simp_all)
    qed
    with j(1) show ?thesis by (rule can_go_onI)
  qed
qed

lemma only_writer_mutates:
  assumes st: "step G now i s = Some s'" and li: "lock_inv s" and ch: "cred s' \<noteq> cred s"
  shows "holds_exclusively i s"
proof -
  have excl: "holds_exclusively i s" if i: "i < length (goroutines s)"
    and w: "in_write (at (goroutines s ! i))"
  proof -
    from i w have pos: "0 < length (filter (\<lambda>g. in_write (at g)) (goroutines s))"
      by (rule filter_count_pos)
    have le: "length (filter (\<lambda>g. in_write (at g)) (goroutines s))
        \<le> length (filter (\<lambda>g. has_called_Lock (at g)) (goroutines s))"
      by (rule count_mono) (rule in_write_has_called_Lock)
    from li have cnt: "length (filter (\<lambda>g. has_called_Lock (at g)) (goroutines s))
        = (if writer s then 1 else 0)"
      unfolding lock_inv_def by blast
    have wr: "writer s"
    proof (rule ccontr)
      assume "\<not> writer s"
      with cnt have "length (filter (\<lambda>g. has_called_Lock (at g)) (goroutines s)) = 0"
        by simp
      with pos le show False by linarith
    qed
    with cnt have "length (filter (\<lambda>g. has_called_Lock (at g)) (goroutines s)) = 1"
      by simp
    with pos le have one: "length (filter (\<lambda>g. in_write (at g)) (goroutines s)) = 1"
      by linarith
    from i have "goroutines s ! i \<in> set (goroutines s)" by simp
    with w have "\<exists>g \<in> set (goroutines s). in_write (at g)" by blast
    with li have r0: "readers s = 0"
      unfolding lock_inv_def by blast
    moreover from li have "readers s = length (filter (\<lambda>g. in_read (at g)) (goroutines s))"
      unfolding lock_inv_def by blast
    ultimately have "length (filter (\<lambda>g. in_read (at g)) (goroutines s)) = 0"
      by linarith
    with r0 i w wr one show ?thesis
      unfolding holds_exclusively_def by blast
  qed
  from st show ?thesis
  proof (cases rule: step_cases)
    case (WriteExpire g)
    then show ?thesis by (intro excl) simp_all
  next
    case (WriteStr g)
    then show ?thesis by (intro excl) simp_all
  qed (use ch in simp_all)
qed

lemma init_lock_inv: "lock_inv (init c n)"
  by (simp add: lock_inv_def init_def)

lemma init_data_inv: "data_inv G c n (init c n)"
  by (simp add: data_inv_def init_def goroutine_inv_def whole_pairs_def)

lemma init_meta_inv: "g \<in> set (goroutines (init c n)) \<Longrightarrow> meta_inv g"
  by (auto simp: init_def meta_inv_def)

lemma init_left: "statements_left (init c n) = 15 * n"
  by (simp add: statements_left_def init_def sum_list_replicate)

lemma reach_inv_step:
  assumes "step G now i s = Some s'" and "reach_inv G c n s"
  shows "reach_inv G c n s'"
  using assms lock_inv_step [OF assms(1)] data_inv_step [OF assms(1)] meta_inv_step [OF assms(1)]
  unfolding reach_inv_def by blast

lemma reach_inv_run:
  "run G now sched s = Some s' \<Longrightarrow> reach_inv G c n s \<Longrightarrow> reach_inv G c n s'"
proof (induction sched arbitrary: s)
  case Nil
  then show ?case by simp
next
  case (Cons i sched)
  from Cons.prems(1) obtain s1 where s1: "step G now i s = Some s1" "run G now sched s1 = Some s'"
    by (auto split: option.splits)
  from reach_inv_step [OF s1(1) Cons.prems(2)] Cons.IH [OF s1(2)] show ?case by simp
qed

lemma run_left:
  "run G now sched s = Some s' \<Longrightarrow> length sched + statements_left s' \<le> statements_left s"
proof (induction sched arbitrary: s)
  case Nil
  then show ?case by simp
next
  case (Cons i sched)
  from Cons.prems(1) obtain s1 where s1: "step G now i s = Some s1" "run G now sched s1 = Some s'"
    by (auto split: option.splits)
  from step_fewer_left [OF s1(1)] Cons.IH [OF s1(2)] show ?case by simp
qed

lemma run_append:
  "run G now (xs @ ys) s = (case run G now xs s of None \<Rightarrow> None | Some s1 \<Rightarrow> run G now ys s1)"
  by (induction xs arbitrary: s) (auto split: option.splits)

lemma can_finish:
  "lock_inv s \<Longrightarrow> \<exists>rest s'. run G now rest s = Some s' \<and> all_returned s'"
proof (induction "statements_left s" arbitrary: s rule: less_induct)
  case less
  show ?case
  proof (cases "all_returned s")
    case True
    then have "run G now [] s = Some s \<and> all_returned s" by simp
    then show ?thesis by blast
  next
    case False
    from progress [OF less.prems False, of G now]
    obtain i s1 where i: "step G now i s = Some s1"
      by (auto simp: can_go_on_def list_ex_iff)
    from step_fewer_left [OF i] have "statements_left s1 < statements_left s" by simp
    from less.hyps [OF this lock_inv_step [OF i less.prems]]
    obtain rest s' where "run G now rest s1 = Some s'" "all_returned s'" by blast
    with i have "run G now (i # rest) s = Some s' \<and> all_returned s'" by simp
    then show ?thesis by blast
  qed
qed

text \<open>
  A goroutine that runs alone does what the sequential model of the call says: it runs to
  the end, leaves the lock free, and the credential, the events and the returned values
  are those of \<open>GetRequestMetadata\<close>.
\<close>

lemma alone_current:
  assumes "\<not> tokenExpire c - 300 <s now 0"
  shows "map_option summary (run G now [0, 0, 0, 0, 0, 0, 0, 0] (init c 1))
    = Some (True, c, [], Some ([''authorization'' \<mapsto> ''Bearer '' @ tokenStr c], None), 0, False)"
  using assms by (simp add: summary_def init_def step_def all_returned_def)

lemma alone_failed:
  assumes "tokenExpire c - 300 <s now 0"
    and "G 0 ''ssgrpcClient'' time_Hour (sharedKey c) = Inl e"
  shows "map_option summary (run G now [0, 0, 0, 0, 0, 0, 0] (init c 1))
    = Some (True, c,
        [CallGenUserToken ''ssgrpcClient'' time_Hour (sharedKey c), LogErr ''gen token error:'' e],
        Some (Map.empty, Some e), 0, False)"
  using assms by (simp add: summary_def init_def step_def all_returned_def)

lemma alone_refreshed:
  assumes "tokenExpire c - 300 <s now 0"
    and "G 0 ''ssgrpcClient'' time_Hour (sharedKey c) = Inr (u, t)"
  shows "map_option summary
      (run G now [0, 0, 0, 0, 0, 0, 0, 0, 0, 0, 0, 0, 0, 0, 0] (init c 1))
    = Some (True, c\<lparr>tokenExpire := EXP u, tokenStr := t\<rparr>,
        [CallGenUserToken ''ssgrpcClient'' time_Hour (sharedKey c), LogInfo ''token refreshed''],
        Some ([''authorization'' \<mapsto> ''Bearer '' @ t], None), 0, False)"
  using assms by (simp add: summary_def init_def step_def all_returned_def)

lemma single_call_agrees:
  "\<exists>sched. map_option summary (run G now sched (init c 1))
     = Some (True, creds (GetRequestMetadata (G 0) (now 0) ctx uri c),
         events (GetRequestMetadata (G 0) (now 0) ctx uri c),
         Some (meta (GetRequestMetadata (G 0) (now 0) ctx uri c),
               err (GetRequestMetadata (G 0) (now 0) ctx uri c)), 0, False)"
proof (cases rule: grm_cases [where c = c and now = "now 0" and gen = "G 0"])
  case current
  show ?thesis
    unfolding grm_current [where gen = "G 0" and now = "now 0", OF current] outcome.select_convs
    by (rule exI, rule alone_current [where now = now and c = c and G = G, OF current])
next
  case (failed e)
  show ?thesis
    unfolding grm_refresh_err [where gen = "G 0" and now = "now 0", OF failed] outcome.select_convs
    by (rule exI, rule alone_failed [where now = now and c = c and G = G, OF failed])
next
  case (refreshed u t)
  show ?thesis
    unfolding grm_refresh_ok [where gen = "G 0" and now = "now 0", OF refreshed] outcome.select_convs
    by (rule exI, rule alone_refreshed [where now = now and c = c and G = G, OF refreshed])
qed

text \<open>
  Claim C2. Let any number of goroutines call \<^verbatim>\<open>GetRequestMetadata\<close> on one credential, and
  let them be interleaved in any way, up to some state. Then:
  \<^item> the calls all complete: either every call has returned or some goroutine can take its
    next statement, the statements taken so far and those still to come are at most 15 for
    each call, and some continuation lets every call return;
  \<^item> every goroutine that has read the token string and the expiry holds a whole pair, that
    is, the pair the credential started with or a pair that one call of
    \<^verbatim>\<open>token.GenUserToken\<close> returned; a call that has returned has returned either an error
    with the empty map or the token of the pair it holds; and the credential itself holds
    a whole pair unless a writer is between its two writes;
  \<^item> a statement that changes the credential is taken by a goroutine that holds the write
    lock, while no other goroutine holds the lock for reading or writing.
\<close>

theorem concurrent_calls_complete_and_see_whole_pairs:
  assumes "run G now sched (init c n) = Some s"
  shows "(all_returned s \<or> can_go_on G now s) \<and>
         length sched + statements_left s \<le> 15 * n \<and>
         (\<exists>rest s'. run G now (sched @ rest) (init c n) = Some s' \<and> all_returned s') \<and>
         (\<forall>g \<in> set (goroutines s).
            (has_read (at g) \<longrightarrow> observed g \<in> set (whole_pairs G c n)) \<and>
            (at g = Done \<longrightarrow> returns_whole g)) \<and>
         ((\<forall>g \<in> set (goroutines s). at g \<noteq> WriteStr) \<longrightarrow>
            (tokenStr (cred s), tokenExpire (cred s)) \<in> set (whole_pairs G c n)) \<and>
         (\<forall>i s'. step G now i s = Some s' \<and> cred s' \<noteq> cred s \<longrightarrow> holds_exclusively i s)"
proof -
  have "reach_inv G c n (init c n)"
    using init_lock_inv init_data_inv init_meta_inv unfolding reach_inv_def by blast
  with assms have inv: "reach_inv G c n s" by (rule reach_inv_run)
  then have li: "lock_inv s" and di: "data_inv G c n s"
    and mi: "\<And>g. g \<in> set (goroutines s) \<Longrightarrow> meta_inv g"
    unfolding reach_inv_def by blast+
  have live: "all_returned s \<or> can_go_on G now s"
    using progress [OF li] by blast
  have bound: "length sched + statements_left s \<le> 15 * n"
    using run_left [OF assms] by (simp add: init_left)
  from can_finish [OF li] obtain rest s' where "run G now rest s = Some s'" "all_returned s'"
    by blast
  with assms have fin: "\<exists>rest s'. run G now (sched @ rest) (init c n) = Some s' \<and> all_returned s'"
    by (auto simp: run_append)
  have pairs: "(has_read (at g) \<longrightarrow> observed g \<in> set (whole_pairs G c n)) \<and>
      (at g = Done \<longrightarrow> returns_whole g)" if "g \<in> set (goroutines s)" for g
  proof -
    from di that have "goroutine_inv G c n (cred s) g" by (simp add: data_inv_def)
    with mi [OF that] show ?thesis by (simp add: goroutine_inv_def meta_inv_def)
  qed
  have stored: "(tokenStr (cred s), tokenExpire (cred s)) \<in> set (whole_pairs G c n)"
    if "\<forall>g \<in> set (goroutines s). at g \<noteq> WriteStr"
    using di that by (simp add: data_inv_def)
  have excl: "holds_exclusively i s" if "step G now i s = Some s'" "cred s' \<noteq> cred s" for i s'
    using that(1) li that(2) by (rule only_writer_mutates)
  from live bound fin pairs stored excl show ?thesis by blast
qed

theorem concurrent_calls_complete_and_see_whole_pairs_witness:
  "map_option cred
     (run (\<lambda>i s d k. if i = 0 then Inr (\<lparr>EXP = 4600\<rparr>, ''new'') else (Inl ''sign'' :: string + User \<times> string))
        (\<lambda>i. 1000) [0, 0, 0, 0, 0, 0, 0, 0, 0, 0]
        (init \<lparr>tokenStr = ''old'', tokenExpire = 0, sharedKey = [1, 2]\<rparr> 2))
     = Some \<lparr>tokenStr = ''old'', tokenExpire = 4600, sharedKey = [1, 2]\<rparr> \<and>
   (\<exists>rest s'.
      run (\<lambda>i s d k. if i = 0 then Inr (\<lparr>EXP = 4600\<rparr>, ''new'') else (Inl ''sign'' :: string + User \<times> string))
        (\<lambda>i. 1000) ([0, 0, 0, 0, 0, 0, 0, 0, 0, 0] @ rest)
        (init \<lparr>tokenStr = ''old'', tokenExpire = 0, sharedKey = [1, 2]\<rparr> 2) = Some s' \<and>
      all_returned s')"
proof -
  let ?G = "\<lambda>i s d k. if i = (0 :: nat) then Inr (\<lparr>EXP = 4600\<rparr>, ''new'')
     else (Inl ''sign'' :: string + User \<times> string)"
  let ?run = "run ?G (\<lambda>i. 1000) [0, 0, 0, 0, 0, 0, 0, 0, 0, 0]
     (init \<lparr>tokenStr = ''old'', tokenExpire = 0, sharedKey = [1, 2]\<rparr> 2)"
  have stored: "map_option cred ?run
      = Some \<lparr>tokenStr = ''old'', tokenExpire = 4600, sharedKey = [1, 2]\<rparr>"
    by (simp add: init_def step_def numeral_2_eq_2)
  then obtain s where "?run = Some s" by auto
  from concurrent_calls_complete_and_see_whole_pairs [OF this] stored
  show ?thesis by blast
qed

end
